theory Spec2Isabelle
  imports Main "HOL-Library.Char_ord" "HOL-Library.Sublist"
begin

section \<open>The lexical analyzer of 3rdprogram.c\<close>

text \<open>
  A C string is modelled by the list of its characters before the terminating NUL, so
  \<open>strlen code\<close> is \<open>length code\<close>. The fields \<open>current_pos\<close> and \<open>line_no\<close> are C
  \<open>int\<close>s; they are modelled by unbounded integers. For the cursor this agrees with the
  program for every source text shorter than \<open>2^31 - 1\<close> characters; for the line
  counter, which is carried over from scan to scan, it agrees as long as the counter stays
  within the range of an \<open>int\<close>. The statements about the final cursor and about the
  line counter over several scans carry these bounds as hypotheses. The capacity fields of the three
  dynamic arrays only drive \<open>realloc\<close> and are left out: an array with its count is a list.
  The keyword, operator, punctuation and operator-character tables are set once by
  \<open>init_lexical_analyzer\<close> and never written again, so they are constants here.
\<close>

subsection \<open>Data\<close>

record Token =
  tok_type :: string
  tok_value :: string

record LexicalAnalyzer =
  symbol_table :: "string list"
  lexical_errors :: "string list"
  tokens :: "Token list"
  current_pos :: int
  line_no :: int

definition keywords_arr :: "string list" where
  "keywords_arr =
    [''auto'', ''break'', ''case'', ''char'', ''const'', ''continue'', ''default'', ''do'',
     ''double'', ''else'', ''enum'', ''extern'', ''float'', ''for'', ''goto'', ''if'',
     ''int'', ''long'', ''register'', ''return'', ''short'', ''signed'', ''sizeof'', ''static'',
     ''struct'', ''switch'', ''typedef'', ''union'', ''unsigned'', ''void'', ''volatile'', ''while'']"

definition operators_arr :: "string list" where
  "operators_arr =
    [''+'', ''-'', ''*'', ''/'', ''%'', ''='', ''<'', ''>'', ''!'', ''&'', ''|'', ''^'', ''~'',
     ''+='', ''-='', ''*='', ''/='', ''%='', ''=='', ''<='', ''>='', ''!='', ''&&'', ''||'',
     ''>>='', ''<<='', ''++'', ''--'']"

definition punctuation :: string where
  "punctuation = ''(){},;[].''"

definition operator_chars :: string where
  "operator_chars = ''+-*/%=<>!&|^~''"

definition init_lexical_analyzer :: LexicalAnalyzer where
  "init_lexical_analyzer =
    \<lparr>symbol_table = [], lexical_errors = [], tokens = [], current_pos = 0, line_no = 1\<rparr>"

subsection \<open>Reading the source text\<close>

definition char_at :: "string \<Rightarrow> int \<Rightarrow> char" where
  \<comment> \<open>\<open>code[i]\<close>: the character at index \<open>i\<close>, the terminating NUL at index \<open>strlen code\<close>.
      The program never reads at any other index; the model returns NUL there.\<close>
  "char_at code i = (if 0 \<le> i \<and> i < int (length code) then code ! nat i else CHR 0x00)"

definition strchr_found :: "string \<Rightarrow> char \<Rightarrow> bool" where
  \<comment> \<open>\<open>strchr(s, c) != NULL\<close>; the terminator counts as part of the string.\<close>
  "strchr_found s c \<longleftrightarrow> c \<in> set s \<or> c = CHR 0x00"

subsection \<open>Character classes\<close>

definition is_whitespace :: "char \<Rightarrow> bool" where
  "is_whitespace ch \<longleftrightarrow> ch = CHR '' '' \<or> ch = CHR 0x09 \<or> ch = CHR 0x0A \<or> ch = CHR 0x0D"

definition tolower :: "char \<Rightarrow> char" where
  \<comment> \<open>The C library's \<open>tolower\<close> in the C locale: only \<open>A\<close> to \<open>Z\<close> are mapped.\<close>
  "tolower ch =
    (if CHR ''A'' \<le> ch \<and> ch \<le> CHR ''Z'' then char_of (of_char ch + (32::nat)) else ch)"

definition is_letter :: "char \<Rightarrow> bool" where
  "is_letter ch = (let lower = tolower ch in CHR ''a'' \<le> lower \<and> lower \<le> CHR ''z'')"

definition is_digit :: "char \<Rightarrow> bool" where
  "is_digit ch \<longleftrightarrow> CHR ''0'' \<le> ch \<and> ch \<le> CHR ''9''"

subsection \<open>Table lookups and the three output arrays\<close>

definition is_in_keywords :: "string \<Rightarrow> bool" where
  "is_in_keywords lexeme \<longleftrightarrow> lexeme \<in> set keywords_arr"

definition is_in_operators :: "string \<Rightarrow> bool" where
  "is_in_operators op \<longleftrightarrow> op \<in> set operators_arr"

definition push_token :: "LexicalAnalyzer \<Rightarrow> Token \<Rightarrow> LexicalAnalyzer" where
  "push_token la token = la\<lparr>tokens := tokens la @ [token]\<rparr>"

definition push_symbol :: "LexicalAnalyzer \<Rightarrow> string \<Rightarrow> LexicalAnalyzer" where
  "push_symbol la identifier =
    (if identifier \<in> set (symbol_table la) then la
     else la\<lparr>symbol_table := symbol_table la @ [identifier]\<rparr>)"

definition push_lexical_error :: "LexicalAnalyzer \<Rightarrow> string \<Rightarrow> LexicalAnalyzer" where
  "push_lexical_error la error = la\<lparr>lexical_errors := lexical_errors la @ [error]\<rparr>"

subsection \<open>Looking ahead\<close>

function peek_loop :: "string \<Rightarrow> int \<Rightarrow> int" where
  "peek_loop code pos =
    (if pos < int (length code) \<and> is_whitespace (char_at code pos)
     then peek_loop code (pos + 1) else pos)"
  by pat_completeness auto
termination
  by (relation "measure (\<lambda>(code, pos). nat (int (length code) - pos))") auto

definition peek_next_non_whitespace :: "LexicalAnalyzer \<Rightarrow> string \<Rightarrow> char" where
  "peek_next_non_whitespace la code =
    (let pos = peek_loop code (current_pos la + 1)
     in if pos < int (length code) then char_at code pos else CHR 0x00)"

subsection \<open>The number parser of the C library\<close>

definition is_xdigit :: "char \<Rightarrow> bool" where
  "is_xdigit ch \<longleftrightarrow> is_digit ch \<or> (CHR ''a'' \<le> ch \<and> ch \<le> CHR ''f'') \<or> (CHR ''A'' \<le> ch \<and> ch \<le> CHR ''F'')"

definition is_space :: "char \<Rightarrow> bool" where
  "is_space ch \<longleftrightarrow> ch = CHR '' '' \<or> (CHR 0x09 \<le> ch \<and> ch \<le> CHR 0x0D)"

definition skip_sign :: "string \<Rightarrow> string" where
  "skip_sign s = (case s of c # r \<Rightarrow> if c = CHR ''+'' \<or> c = CHR ''-'' then r else s | [] \<Rightarrow> [])"

definition mantissa_rest :: "(char \<Rightarrow> bool) \<Rightarrow> string \<Rightarrow> string option" where
  \<comment> \<open>A nonempty run of digits that may contain one radix character; what follows it.\<close>
  "mantissa_rest dig s =
    (let ip = takeWhile dig s; r = dropWhile dig s
     in case r of
          c # r' \<Rightarrow>
            if c = CHR ''.'' then
              (if ip = [] \<and> takeWhile dig r' = [] then None else Some (dropWhile dig r'))
            else (if ip = [] then None else Some r)
        | [] \<Rightarrow> (if ip = [] then None else Some []))"

definition exponent_rest :: "char \<Rightarrow> char \<Rightarrow> string \<Rightarrow> string" where
  \<comment> \<open>An optional exponent: the marker, an optional sign, a nonempty run of decimal digits.\<close>
  "exponent_rest lo up s =
    (case s of
       c # r \<Rightarrow>
         if c = lo \<or> c = up then
           (let r1 = skip_sign r
            in if takeWhile is_digit r1 = [] then s else dropWhile is_digit r1)
         else s
     | [] \<Rightarrow> [])"

definition lower_prefix :: "string \<Rightarrow> string \<Rightarrow> bool" where
  "lower_prefix w s \<longleftrightarrow> length w \<le> length s \<and> map tolower (take (length w) s) = w"

definition is_nchar :: "char \<Rightarrow> bool" where
  "is_nchar ch \<longleftrightarrow> is_digit ch \<or> is_letter ch \<or> ch = CHR ''_''"

definition strtod_endptr :: "string \<Rightarrow> string" where
  \<comment> \<open>Modelled from the spec: \<open>strtod\<close> is the C library's and has no source in the
      repository; the spec calls it the parse of a numeric literal by the standard numeric
      grammar. This is the text left at \<open>*endptr\<close> by the grammar of the C standard
      (7.22.1.3): white space and a sign are skipped, then the longest of a hexadecimal
      form, a decimal form, INF, INFINITY, NAN or NAN(...) is taken; when there is none,
      nothing is consumed.\<close>
  "strtod_endptr s =
    (let b = skip_sign (dropWhile is_space s)
     in case (if lower_prefix ''0x'' b then mantissa_rest is_xdigit (drop 2 b) else None) of
          Some r \<Rightarrow> exponent_rest (CHR ''p'') (CHR ''P'') r
        | None \<Rightarrow>
            (case mantissa_rest is_digit b of
               Some r \<Rightarrow> exponent_rest (CHR ''e'') (CHR ''E'') r
             | None \<Rightarrow>
                 if lower_prefix ''infinity'' b then drop 8 b
                 else if lower_prefix ''inf'' b then drop 3 b
                 else if lower_prefix ''nan'' b then
                   (case drop 3 b of
                      c # r' \<Rightarrow>
                        (if c = CHR ''('' then
                           (case dropWhile is_nchar r' of
                              d # r'' \<Rightarrow> if d = CHR '')'' then r'' else c # r'
                            | [] \<Rightarrow> c # r')
                         else c # r')
                    | [] \<Rightarrow> [])
                 else s))"

subsection \<open>The lexeme reader\<close>

function read_lexeme_loop :: "string \<Rightarrow> int \<Rightarrow> string \<Rightarrow> int \<times> string" where
  \<comment> \<open>The loop of \<open>read_lexeme\<close> on the cursor and the local buffer \<open>lexeme[256]\<close>.\<close>
  "read_lexeme_loop code pos lexeme =
    (if pos < int (length code) \<and>
        \<not> is_whitespace (char_at code pos) \<and>
        \<not> strchr_found operator_chars (char_at code pos) \<and>
        \<not> strchr_found punctuation (char_at code pos)
     then read_lexeme_loop code (pos + 1)
            (if length lexeme < 255 then lexeme @ [char_at code pos] else lexeme)
     else (pos, lexeme))"
  by pat_completeness auto
termination
  by (relation "measure (\<lambda>(code, pos, lexeme). nat (int (length code) - pos))") auto

definition valid_rest :: "string \<Rightarrow> bool" where
  \<comment> \<open>The \<open>for\<close> loop from index 1 that clears \<open>valid\<close> at the first bad character.\<close>
  "valid_rest lexeme \<longleftrightarrow>
    (\<forall>c \<in> set (drop 1 lexeme). is_letter c \<or> is_digit c \<or> c = CHR ''_'')"

definition read_lexeme :: "LexicalAnalyzer \<Rightarrow> string \<Rightarrow> Token \<times> LexicalAnalyzer" where
  "read_lexeme la code =
    (let token = \<lparr>tok_type = [], tok_value = []\<rparr>;
         (pos, lexeme) = read_lexeme_loop code (current_pos la) [];
         la = la\<lparr>current_pos := pos - 1\<rparr>
     in if is_in_keywords lexeme then
          (\<lparr>tok_type = ''Keyword'', tok_value = lexeme\<rparr>, la)
        else if length lexeme > 0 then
          (if (is_letter (hd lexeme) \<or> hd lexeme = CHR ''_'') \<and> valid_rest lexeme then
             (let next_char = peek_next_non_whitespace la code;
                  la = (if next_char \<noteq> CHR ''('' then push_symbol la lexeme else la)
              in (\<lparr>tok_type = ''Identifier'', tok_value = lexeme\<rparr>, la))
           else if is_digit (hd lexeme) \<and> strtod_endptr lexeme = [] then
             (\<lparr>tok_type = ''Constant'', tok_value = lexeme\<rparr>, la)
           else (token, push_lexical_error la lexeme))
        else (token, la))"

subsection \<open>String and character literals\<close>

function read_quoted_loop :: "char \<Rightarrow> string \<Rightarrow> int \<Rightarrow> string \<Rightarrow> int \<times> string" where
  \<comment> \<open>The loop shared, character for character, by \<open>read_string\<close> and \<open>read_character\<close>,
      on the cursor and the local buffer; \<open>index\<close> is the length of the buffer.\<close>
  "read_quoted_loop q code pos buf =
    (if pos < int (length code) then
       (let ch = char_at code pos;
            buf = (if length buf < 255 then buf @ [ch] else buf)
        in if ch = q then (pos, buf) else read_quoted_loop q code (pos + 1) buf)
     else (pos, buf))"
  by pat_completeness auto
termination
  by (relation "measure (\<lambda>(q, code, pos, buf). nat (int (length code) - pos))") auto

definition read_character :: "LexicalAnalyzer \<Rightarrow> string \<Rightarrow> Token \<times> LexicalAnalyzer" where
  "read_character la code =
    (let (pos, chr) = read_quoted_loop (CHR 0x27) code (current_pos la + 1) [CHR 0x27]
     in (\<lparr>tok_type = ''String'', tok_value = chr\<rparr>, la\<lparr>current_pos := pos\<rparr>))"

definition read_string :: "LexicalAnalyzer \<Rightarrow> string \<Rightarrow> Token \<times> LexicalAnalyzer" where
  "read_string la code =
    (let (pos, str_val) = read_quoted_loop (CHR 0x22) code (current_pos la + 1) [CHR 0x22]
     in (\<lparr>tok_type = ''String'', tok_value = str_val\<rparr>, la\<lparr>current_pos := pos\<rparr>))"

subsection \<open>Operators\<close>

definition read_operator :: "LexicalAnalyzer \<Rightarrow> string \<Rightarrow> Token \<times> LexicalAnalyzer" where
  "read_operator la code =
    (let op = [char_at code (current_pos la)];
         next_pos = current_pos la + 1
     in if next_pos < int (length code) \<and>
           is_in_operators [char_at code (current_pos la), char_at code next_pos]
        then (\<lparr>tok_type = ''Operator'',
               tok_value = [char_at code (current_pos la), char_at code next_pos]\<rparr>,
              la\<lparr>current_pos := current_pos la + 1\<rparr>)
        else (\<lparr>tok_type = ''Operator'', tok_value = op\<rparr>, la))"

subsection \<open>Comments\<close>

function line_comment_loop :: "string \<Rightarrow> int \<Rightarrow> int" where
  "line_comment_loop code pos =
    (if pos < int (length code) \<and> char_at code pos \<noteq> CHR 0x0A
     then line_comment_loop code (pos + 1) else pos)"
  by pat_completeness auto
termination
  by (relation "measure (\<lambda>(code, pos). nat (int (length code) - pos))") auto

function block_comment_loop :: "string \<Rightarrow> int \<Rightarrow> int \<Rightarrow> int \<times> int" where
  \<comment> \<open>On the cursor and the line counter.\<close>
  "block_comment_loop code pos line =
    (if pos < int (length code) - 1 then
       (let line = (if char_at code pos = CHR 0x0A then line + 1 else line)
        in if char_at code pos = CHR ''*'' \<and> char_at code (pos + 1) = CHR ''/''
           then (pos + 1, line)
           else block_comment_loop code (pos + 1) line)
     else (pos, line))"
  by pat_completeness auto
termination
  by (relation "measure (\<lambda>(code, pos, line). nat (int (length code) - pos))") auto

definition skip_comment :: "LexicalAnalyzer \<Rightarrow> string \<Rightarrow> LexicalAnalyzer" where
  "skip_comment la code =
    (if current_pos la + 1 < int (length code) \<and> char_at code (current_pos la) = CHR ''/'' \<and>
        char_at code (current_pos la + 1) = CHR ''/''
     then la\<lparr>current_pos := line_comment_loop code (current_pos la)\<rparr>
     else if current_pos la + 1 < int (length code) \<and> char_at code (current_pos la) = CHR ''/'' \<and>
        char_at code (current_pos la + 1) = CHR ''*''
     then (let (pos, line) = block_comment_loop code (current_pos la + 2) (line_no la)
           in la\<lparr>current_pos := pos, line_no := line\<rparr>)
     else la)"

subsection \<open>The driving loop\<close>

definition tokenize_step :: "string \<Rightarrow> LexicalAnalyzer \<Rightarrow> LexicalAnalyzer" where
  \<comment> \<open>One iteration of the \<open>while\<close> loop of \<open>tokenize\<close>. The increments are those of
      the C \<open>int\<close>s as long as cursor and line counter stay below \<open>2^31 - 1\<close>.\<close>
  "tokenize_step code la =
    (let ch = char_at code (current_pos la)
     in if is_whitespace ch then
          (let la = (if ch = CHR 0x0A then la\<lparr>line_no := line_no la + 1\<rparr> else la)
           in la\<lparr>current_pos := current_pos la + 1\<rparr>)
        else if ch = CHR ''/'' \<and> current_pos la + 1 < int (length code) \<and>
                (char_at code (current_pos la + 1) = CHR ''/'' \<or>
                 char_at code (current_pos la + 1) = CHR ''*'') then
          (let la = skip_comment la code
           in la\<lparr>current_pos := current_pos la + 1\<rparr>)
        else
          (let la =
             (if is_letter ch \<or> ch = CHR ''_'' \<or> is_digit ch then
                (let (token, la) = read_lexeme la code
                 in if length (tok_type token) > 0 then push_token la token else la)
              else if ch = CHR 0x22 then
                (let (token, la) = read_string la code in push_token la token)
              else if ch = CHR 0x27 then
                (let (token, la) = read_character la code in push_token la token)
              else if strchr_found operator_chars ch then
                (let (token, la) = read_operator la code in push_token la token)
              else if strchr_found punctuation ch then
                push_token la \<lparr>tok_type = ''Punctuation'', tok_value = [ch]\<rparr>
              else la)
           in la\<lparr>current_pos := current_pos la + 1\<rparr>))"

subsection \<open>Every iteration moves the cursor forward\<close>

declare peek_loop.simps [simp del] read_lexeme_loop.simps [simp del]
  read_quoted_loop.simps [simp del] line_comment_loop.simps [simp del]
  block_comment_loop.simps [simp del]

lemma read_lexeme_loop_ge: "pos \<le> fst (read_lexeme_loop code pos lexeme)"
proof (induction code pos lexeme rule: read_lexeme_loop.induct)
  case (1 code pos lexeme)
  show ?case
    using 1 by (subst read_lexeme_loop.simps) (auto split: if_splits)
qed

lemma read_lexeme_loop_le:
  "fst (read_lexeme_loop code pos lexeme) \<le> max pos (int (length code))"
proof (induction code pos lexeme rule: read_lexeme_loop.induct)
  case (1 code pos lexeme)
  show ?case
    using 1 by (subst read_lexeme_loop.simps) (auto split: if_splits)
qed

lemma read_lexeme_loop_gt:
  assumes "pos < int (length code)" "\<not> is_whitespace (char_at code pos)"
    "\<not> strchr_found operator_chars (char_at code pos)"
    "\<not> strchr_found punctuation (char_at code pos)"
  shows "pos < fst (read_lexeme_loop code pos lexeme)"
proof -
  have "pos + 1 \<le> fst (read_lexeme_loop code (pos + 1)
      (if length lexeme < 255 then lexeme @ [char_at code pos] else lexeme))"
    by (rule read_lexeme_loop_ge)
  then show ?thesis
    using assms by (subst read_lexeme_loop.simps) simp
qed

lemma read_quoted_loop_ge: "pos \<le> fst (read_quoted_loop q code pos buf)"
proof (induction q code pos buf rule: read_quoted_loop.induct)
  case (1 q code pos buf)
  show ?case
    using 1 [of "char_at code pos" "if length buf < 255 then buf @ [char_at code pos] else buf"]
    by (subst read_quoted_loop.simps) (auto simp: Let_def split: if_splits)
qed

lemma read_quoted_loop_le:
  "fst (read_quoted_loop q code pos buf) \<le> max pos (int (length code))"
proof (induction q code pos buf rule: read_quoted_loop.induct)
  case (1 q code pos buf)
  show ?case
    using 1 [of "char_at code pos" "if length buf < 255 then buf @ [char_at code pos] else buf"]
    by (subst read_quoted_loop.simps) (auto simp: Let_def split: if_splits)
qed

lemma line_comment_loop_ge: "pos \<le> line_comment_loop code pos"
proof (induction code pos rule: line_comment_loop.induct)
  case (1 code pos)
  show ?case
    using 1 by (subst line_comment_loop.simps) (auto split: if_splits)
qed

lemma line_comment_loop_le: "line_comment_loop code pos \<le> max pos (int (length code))"
proof (induction code pos rule: line_comment_loop.induct)
  case (1 code pos)
  show ?case
    using 1 by (subst line_comment_loop.simps) (auto split: if_splits)
qed

lemma block_comment_loop_ge: "pos \<le> fst (block_comment_loop code pos line)"
proof (induction code pos line rule: block_comment_loop.induct)
  case (1 code pos line)
  show ?case
    using 1 [of "if char_at code pos = CHR 0x0A then line + 1 else line"]
    by (subst block_comment_loop.simps) (auto simp: Let_def split: if_splits)
qed

lemma block_comment_loop_le:
  "fst (block_comment_loop code pos line) \<le> max pos (int (length code) - 1)"
proof (induction code pos line rule: block_comment_loop.induct)
  case (1 code pos line)
  show ?case
    using 1 [of "if char_at code pos = CHR 0x0A then line + 1 else line"]
    by (subst block_comment_loop.simps) (auto simp: Let_def split: if_splits)
qed

lemma current_pos_push_token [simp]: "current_pos (push_token la t) = current_pos la"
  by (simp add: push_token_def)

lemma current_pos_push_symbol [simp]: "current_pos (push_symbol la s) = current_pos la"
  by (simp add: push_symbol_def)

lemma current_pos_push_lexical_error [simp]:
  "current_pos (push_lexical_error la s) = current_pos la"
  by (simp add: push_lexical_error_def)

lemma current_pos_read_lexeme:
  "current_pos (snd (read_lexeme la code)) = fst (read_lexeme_loop code (current_pos la) []) - 1"
  by (simp add: read_lexeme_def Let_def split: prod.splits)

lemma current_pos_read_string:
  "current_pos (snd (read_string la code)) =
     fst (read_quoted_loop (CHR 0x22) code (current_pos la + 1) [CHR 0x22])"
  by (simp add: read_string_def split: prod.splits)

lemma current_pos_read_character:
  "current_pos (snd (read_character la code)) =
     fst (read_quoted_loop (CHR 0x27) code (current_pos la + 1) [CHR 0x27])"
  by (simp add: read_character_def split: prod.splits)

lemma current_pos_read_operator:
  "current_pos (snd (read_operator la code)) =
     (if current_pos la + 1 < int (length code) \<and>
         is_in_operators [char_at code (current_pos la), char_at code (current_pos la + 1)]
      then current_pos la + 1 else current_pos la)"
  by (simp add: read_operator_def Let_def)

lemma current_pos_skip_comment:
  assumes "current_pos la + 1 < int (length code)"
  shows "current_pos la \<le> current_pos (skip_comment la code) \<and>
         current_pos (skip_comment la code) \<le> int (length code)"
proof -
  have a: "current_pos la \<le> line_comment_loop code (current_pos la)"
    by (rule line_comment_loop_ge)
  have b: "line_comment_loop code (current_pos la) \<le> max (current_pos la) (int (length code))"
    by (rule line_comment_loop_le)
  have c: "current_pos la + 2 \<le> fst (block_comment_loop code (current_pos la + 2) (line_no la))"
    by (rule block_comment_loop_ge)
  have d: "fst (block_comment_loop code (current_pos la + 2) (line_no la))
             \<le> max (current_pos la + 2) (int (length code) - 1)"
    by (rule block_comment_loop_le)
  show ?thesis
    using assms a b c d by (auto simp: skip_comment_def split: prod.splits)
qed

lemma letter_not_delimiter:
  assumes "is_letter ch \<or> ch = CHR ''_'' \<or> is_digit ch"
  shows "\<not> is_whitespace ch \<and> \<not> strchr_found operator_chars ch \<and> \<not> strchr_found punctuation ch"
  using assms
  by (auto simp: is_letter_def is_digit_def is_whitespace_def strchr_found_def tolower_def
      operator_chars_def punctuation_def Let_def less_eq_char_def split: if_splits)

lemma letter_not_special:
  assumes "is_letter ch \<or> ch = CHR ''_'' \<or> is_digit ch"
  shows "ch \<noteq> CHR ''/''" "ch \<noteq> CHR 0x22" "ch \<noteq> CHR 0x27" "\<not> is_whitespace ch"
  using assms
  by (auto simp: is_letter_def is_digit_def is_whitespace_def tolower_def Let_def
      less_eq_char_def split: if_splits)

lemma quote_class:
  "\<not> is_whitespace (CHR 0x22)" "\<not> is_letter (CHR 0x22)" "\<not> is_digit (CHR 0x22)"
  "\<not> is_whitespace (CHR 0x27)" "\<not> is_letter (CHR 0x27)" "\<not> is_digit (CHR 0x27)"
  by (simp_all add: is_letter_def is_digit_def is_whitespace_def tolower_def Let_def
      less_eq_char_def)

lemma tokenize_step_whitespace:
  assumes "is_whitespace (char_at code (current_pos la))"
  shows "tokenize_step code la =
    (if char_at code (current_pos la) = CHR 0x0A
     then la\<lparr>line_no := line_no la + 1, current_pos := current_pos la + 1\<rparr>
     else la\<lparr>current_pos := current_pos la + 1\<rparr>)"
  using assms by (simp add: tokenize_step_def Let_def)

lemma tokenize_step_comment:
  assumes "char_at code (current_pos la) = CHR ''/''"
    "current_pos la + 1 < int (length code)"
    "char_at code (current_pos la + 1) = CHR ''/'' \<or> char_at code (current_pos la + 1) = CHR ''*''"
  shows "tokenize_step code la =
    (skip_comment la code)\<lparr>current_pos := current_pos (skip_comment la code) + 1\<rparr>"
  using assms by (simp add: tokenize_step_def Let_def is_whitespace_def)

lemma tokenize_step_lexeme:
  assumes "is_letter (char_at code (current_pos la)) \<or> char_at code (current_pos la) = CHR ''_'' \<or>
    is_digit (char_at code (current_pos la))"
  shows "tokenize_step code la =
    (let token = fst (read_lexeme la code); la' = snd (read_lexeme la code);
         la'' = (if tok_type token \<noteq> [] then push_token la' token else la')
     in la''\<lparr>current_pos := current_pos la'' + 1\<rparr>)"
  using assms letter_not_special [OF assms]
  by (simp add: tokenize_step_def Let_def split_beta)

lemma tokenize_step_string:
  assumes "char_at code (current_pos la) = CHR 0x22"
  shows "tokenize_step code la =
    (push_token (snd (read_string la code)) (fst (read_string la code)))
      \<lparr>current_pos := current_pos (snd (read_string la code)) + 1\<rparr>"
  using assms by (simp add: tokenize_step_def Let_def split_beta quote_class)

lemma tokenize_step_character:
  assumes "char_at code (current_pos la) = CHR 0x27"
  shows "tokenize_step code la =
    (push_token (snd (read_character la code)) (fst (read_character la code)))
      \<lparr>current_pos := current_pos (snd (read_character la code)) + 1\<rparr>"
  using assms by (simp add: tokenize_step_def Let_def split_beta quote_class)

lemma tokenize_step_operator:
  assumes "strchr_found operator_chars (char_at code (current_pos la))"
    "\<not> (char_at code (current_pos la) = CHR ''/'' \<and> current_pos la + 1 < int (length code) \<and>
        (char_at code (current_pos la + 1) = CHR ''/'' \<or>
         char_at code (current_pos la + 1) = CHR ''*''))"
  shows "tokenize_step code la =
    (push_token (snd (read_operator la code)) (fst (read_operator la code)))
      \<lparr>current_pos := current_pos (snd (read_operator la code)) + 1\<rparr>"
proof -
  let ?ch = "char_at code (current_pos la)"
  have "\<not> (is_letter ?ch \<or> ?ch = CHR ''_'' \<or> is_digit ?ch)"
    using assms(1) letter_not_delimiter by blast
  moreover have ws: "\<not> is_whitespace ?ch" and "?ch \<noteq> CHR 0x22" "?ch \<noteq> CHR 0x27"
    using assms(1) by (auto simp: strchr_found_def operator_chars_def is_whitespace_def)
  ultimately show ?thesis
    unfolding tokenize_step_def Let_def
    by (subst if_not_P [OF ws], subst if_not_P [OF assms(2)]) (simp add: split_beta assms(1))
qed

lemma tokenize_step_punctuation:
  assumes "strchr_found punctuation (char_at code (current_pos la))"
    "\<not> strchr_found operator_chars (char_at code (current_pos la))"
  shows "tokenize_step code la =
    (push_token la \<lparr>tok_type = ''Punctuation'', tok_value = [char_at code (current_pos la)]\<rparr>)
      \<lparr>current_pos := current_pos la + 1\<rparr>"
proof -
  let ?ch = "char_at code (current_pos la)"
  have "\<not> (is_letter ?ch \<or> ?ch = CHR ''_'' \<or> is_digit ?ch)"
    using assms(1) letter_not_delimiter by blast
  moreover have "\<not> is_whitespace ?ch" "?ch \<noteq> CHR 0x22" "?ch \<noteq> CHR 0x27" "?ch \<noteq> CHR ''/''"
    using assms by (auto simp: strchr_found_def punctuation_def operator_chars_def is_whitespace_def)
  ultimately show ?thesis
    using assms by (simp add: tokenize_step_def Let_def split_beta)
qed

lemma tokenize_step_other:
  assumes "\<not> is_whitespace (char_at code (current_pos la))"
    "\<not> (is_letter (char_at code (current_pos la)) \<or> char_at code (current_pos la) = CHR ''_'' \<or>
        is_digit (char_at code (current_pos la)))"
    "char_at code (current_pos la) \<noteq> CHR 0x22" "char_at code (current_pos la) \<noteq> CHR 0x27"
    "\<not> strchr_found operator_chars (char_at code (current_pos la))"
    "\<not> strchr_found punctuation (char_at code (current_pos la))"
  shows "tokenize_step code la = la\<lparr>current_pos := current_pos la + 1\<rparr>"
proof -
  have "char_at code (current_pos la) \<noteq> CHR ''/''"
    using assms(5) by (auto simp: strchr_found_def operator_chars_def)
  then show ?thesis
    using assms by (simp add: tokenize_step_def Let_def split_beta)
qed

lemma tokenize_step_cases [case_names whitespace comment lexeme string character operator
    punctuation other]:
  fixes code la
  defines "ch \<equiv> char_at code (current_pos la)"
  obtains
    "is_whitespace ch"
  | "ch = CHR ''/''" "current_pos la + 1 < int (length code)"
      "char_at code (current_pos la + 1) = CHR ''/'' \<or> char_at code (current_pos la + 1) = CHR ''*''"
  | "is_letter ch \<or> ch = CHR ''_'' \<or> is_digit ch"
  | "ch = CHR 0x22"
  | "ch = CHR 0x27"
  | "strchr_found operator_chars ch"
      "\<not> (ch = CHR ''/'' \<and> current_pos la + 1 < int (length code) \<and>
        (char_at code (current_pos la + 1) = CHR ''/'' \<or>
         char_at code (current_pos la + 1) = CHR ''*''))"
  | "strchr_found punctuation ch" "\<not> strchr_found operator_chars ch"
  | "\<not> is_whitespace ch" "\<not> (is_letter ch \<or> ch = CHR ''_'' \<or> is_digit ch)"
      "ch \<noteq> CHR 0x22" "ch \<noteq> CHR 0x27" "\<not> strchr_found operator_chars ch"
      "\<not> strchr_found punctuation ch"
  by blast

lemma tokenize_step_pos:
  assumes "current_pos la < int (length code)"
  shows "current_pos la < current_pos (tokenize_step code la) \<and>
         current_pos (tokenize_step code la) \<le> int (length code) + 1"
proof (cases code la rule: tokenize_step_cases)
  case whitespace
  then show ?thesis using assms by (simp add: tokenize_step_whitespace)
next
  case comment
  then show ?thesis
    using current_pos_skip_comment [of la code] by (simp add: tokenize_step_comment)
next
  case lexeme
  have "current_pos la < fst (read_lexeme_loop code (current_pos la) [])"
    using read_lexeme_loop_gt [OF assms] letter_not_delimiter [OF lexeme] by blast
  moreover have "fst (read_lexeme_loop code (current_pos la) []) \<le> int (length code)"
    using read_lexeme_loop_le [of code "current_pos la" "[]"] assms by simp
  ultimately show ?thesis
    by (simp add: tokenize_step_lexeme [OF lexeme] Let_def current_pos_read_lexeme)
next
  case string
  then show ?thesis
    using read_quoted_loop_ge [of "current_pos la + 1" "CHR 0x22" code "[CHR 0x22]"]
      read_quoted_loop_le [of "CHR 0x22" code "current_pos la + 1" "[CHR 0x22]"] assms
    by (simp add: tokenize_step_string current_pos_read_string)
next
  case character
  then show ?thesis
    using read_quoted_loop_ge [of "current_pos la + 1" "CHR 0x27" code "[CHR 0x27]"]
      read_quoted_loop_le [of "CHR 0x27" code "current_pos la + 1" "[CHR 0x27]"] assms
    by (simp add: tokenize_step_character current_pos_read_character)
next
  case operator
  then show ?thesis
    using assms by (simp add: tokenize_step_operator current_pos_read_operator)
next
  case punctuation
  then show ?thesis using assms by (simp add: tokenize_step_punctuation)
next
  case other
  then show ?thesis using assms by (simp add: tokenize_step_other)
qed

subsection \<open>The scan\<close>

function tokenize_loop :: "string \<Rightarrow> LexicalAnalyzer \<Rightarrow> LexicalAnalyzer" where
  \<comment> \<open>\<open>int (length code)\<close> is \<open>int len = strlen(code)\<close> for a text shorter than \<open>2^31\<close>
      characters.\<close>
  "tokenize_loop code la =
    (if current_pos la < int (length code) then tokenize_loop code (tokenize_step code la)
     else la)"
  by pat_completeness auto
termination
  by (relation "measure (\<lambda>(code, la). nat (int (length code) - current_pos la))")
    (use tokenize_step_pos in \<open>auto simp: less_diff_conv\<close>)

definition tokenize :: "LexicalAnalyzer \<Rightarrow> string \<Rightarrow> LexicalAnalyzer" where
  "tokenize la code = tokenize_loop code (la\<lparr>tokens := [], current_pos := 0\<rparr>)"

declare tokenize_loop.simps [simp del]

subsection \<open>Auxiliary notions for the statements\<close>

definition is_delimiter :: "char \<Rightarrow> bool" where
  "is_delimiter c \<longleftrightarrow>
     is_whitespace c \<or> strchr_found operator_chars c \<or> strchr_found punctuation c"

definition token_text_ok :: "Token \<Rightarrow> bool" where
  "token_text_ok t \<longleftrightarrow>
     (tok_type t = ''Operator'' \<longrightarrow> length (tok_value t) = 1 \<or> length (tok_value t) = 2) \<and>
     tok_value t \<noteq> ''>>='' \<and> tok_value t \<noteq> ''<<=''"

text \<open>
  The last reader ran into the end of the input: with the cursor at \<open>pos\<close>, a string or
  character literal that no later quote closes, a \<open>//\<close> comment that no newline ends, or
  \<open>/*\<close> as the last two characters.
\<close>

definition reader_hits_end :: "string \<Rightarrow> int \<Rightarrow> bool" where
  "reader_hits_end code pos \<longleftrightarrow>
     (char_at code pos = CHR 0x22 \<and> CHR 0x22 \<notin> set (drop (nat (pos + 1)) code)) \<or>
     (char_at code pos = CHR 0x27 \<and> CHR 0x27 \<notin> set (drop (nat (pos + 1)) code)) \<or>
     (char_at code pos = CHR ''/'' \<and> pos + 1 < int (length code) \<and>
        char_at code (pos + 1) = CHR ''/'' \<and> CHR 0x0A \<notin> set (drop (nat pos) code)) \<or>
     (char_at code pos = CHR ''/'' \<and> char_at code (pos + 1) = CHR ''*'' \<and>
        pos + 2 = int (length code))"

text \<open>The newlines from the cursor to the end of the input.\<close>

definition lines_left :: "string \<Rightarrow> int \<Rightarrow> int" where
  "lines_left code pos = int (count_list (drop (nat pos) code) (CHR 0x0A))"

text \<open>
  The states the driving loop passes through at the top of an iteration, from the analyzer
  \<open>la0\<close> handed to \<open>tokenize\<close>.
\<close>

inductive scan_reaches :: "string \<Rightarrow> LexicalAnalyzer \<Rightarrow> LexicalAnalyzer \<Rightarrow> bool"
  for code :: string and la0 :: LexicalAnalyzer where
    start: "scan_reaches code la0 (la0\<lparr>tokens := [], current_pos := 0\<rparr>)"
  | step: "scan_reaches code la0 la \<Longrightarrow> current_pos la < int (length code) \<Longrightarrow>
           scan_reaches code la0 (tokenize_step code la)"

code_pred scan_reaches .

section \<open>Properties of the loops\<close>

lemma tokenize_loop_pos:
  assumes "current_pos la \<le> int (length code) + 1"
  shows "int (length code) \<le> current_pos (tokenize_loop code la) \<and>
         current_pos (tokenize_loop code la) \<le> int (length code) + 1"
  using assms
proof (induction code la rule: tokenize_loop.induct)
  case (1 code la)
  show ?case
  proof (cases "current_pos la < int (length code)")
    case True
    then show ?thesis
      using "1.IH" tokenize_step_pos [OF True] by (subst (1 2) tokenize_loop.simps) simp
  next
    case False
    then show ?thesis
      using "1.prems" by (subst (1 2) tokenize_loop.simps) simp
  qed
qed

lemma char_at_nth: "0 \<le> pos \<Longrightarrow> pos < int (length code) \<Longrightarrow> char_at code pos = code ! nat pos"
  by (simp add: char_at_def)

lemma drop_nat_step:
  assumes "0 \<le> pos" "pos < int (length code)"
  shows "drop (nat pos) code = char_at code pos # drop (nat (pos + 1)) code"
proof -
  have "nat pos < length code" using assms by linarith
  then have "drop (nat pos) code = code ! nat pos # drop (Suc (nat pos)) code"
    by (simp add: Cons_nth_drop_Suc)
  moreover have "Suc (nat pos) = nat (pos + 1)" using assms by linarith
  ultimately show ?thesis using assms by (simp add: char_at_nth)
qed

lemma read_lexeme_loop_run:
  assumes "0 \<le> pos"
  shows "read_lexeme_loop code pos lexeme =
    (pos + int (length (takeWhile (\<lambda>c. \<not> is_delimiter c) (drop (nat pos) code))),
     lexeme @ take (255 - length lexeme) (takeWhile (\<lambda>c. \<not> is_delimiter c) (drop (nat pos) code)))"
  using assms
proof (induction code pos lexeme rule: read_lexeme_loop.induct)
  case (1 code pos lexeme)
  show ?case
  proof (cases "pos < int (length code)")
    case inb: True
    note d = drop_nat_step [OF "1.prems" inb]
    show ?thesis
    proof (cases "is_delimiter (char_at code pos)")
      case True
      then show ?thesis
        using inb by (subst read_lexeme_loop.simps) (auto simp: d is_delimiter_def)
    next
      case False
      have ih: "read_lexeme_loop code (pos + 1)
          (if length lexeme < 255 then lexeme @ [char_at code pos] else lexeme) =
        (pos + 1 + int (length (takeWhile (\<lambda>c. \<not> is_delimiter c) (drop (nat (pos + 1)) code))),
         (if length lexeme < 255 then lexeme @ [char_at code pos] else lexeme) @
           take (255 - length (if length lexeme < 255 then lexeme @ [char_at code pos] else lexeme))
             (takeWhile (\<lambda>c. \<not> is_delimiter c) (drop (nat (pos + 1)) code)))"
        using "1.IH" inb False "1.prems" by (simp add: is_delimiter_def)
      have "255 - length lexeme = Suc (254 - length lexeme)" if "length lexeme < 255"
        using that by simp
      then show ?thesis
        using inb False
        by (subst read_lexeme_loop.simps) (auto simp: ih d is_delimiter_def)
    qed
  next
    case False
    then show ?thesis
      by (subst read_lexeme_loop.simps) simp
  qed
qed

lemma peek_loop_run:
  assumes "0 \<le> pos"
  shows "peek_loop code pos = pos + int (length (takeWhile is_whitespace (drop (nat pos) code)))"
  using assms
proof (induction code pos rule: peek_loop.induct)
  case (1 code pos)
  show ?case
  proof (cases "pos < int (length code)")
    case inb: True
    note d = drop_nat_step [OF "1.prems" inb]
    show ?thesis
      using "1.IH" "1.prems" inb by (subst peek_loop.simps) (simp add: d)
  next
    case False
    then show ?thesis
      by (subst peek_loop.simps) simp
  qed
qed

lemma read_quoted_loop_unterminated:
  assumes "0 \<le> pos" "q \<notin> set (drop (nat pos) code)"
  shows "read_quoted_loop q code pos buf =
    (max pos (int (length code)), buf @ take (255 - length buf) (drop (nat pos) code))"
  using assms
proof (induction q code pos buf rule: read_quoted_loop.induct)
  case (1 q code pos buf)
  show ?case
  proof (cases "pos < int (length code)")
    case inb: True
    note d = drop_nat_step [OF "1.prems"(1) inb]
    let ?buf = "if length buf < 255 then buf @ [char_at code pos] else buf"
    have ne: "char_at code pos \<noteq> q" and rest: "q \<notin> set (drop (nat (pos + 1)) code)"
      using "1.prems"(2) by (auto simp: d)
    have ih: "read_quoted_loop q code (pos + 1) ?buf =
        (max (pos + 1) (int (length code)),
         ?buf @ take (255 - length ?buf) (drop (nat (pos + 1)) code))"
      using "1.IH" [OF inb refl refl ne _ rest] "1.prems"(1) by simp
    have "255 - length buf = Suc (254 - length buf)" if "length buf < 255"
      using that by simp
    then show ?thesis
      using inb ne by (subst read_quoted_loop.simps) (auto simp: ih d Let_def)
  next
    case False
    then show ?thesis
      by (subst read_quoted_loop.simps) simp
  qed
qed

lemma line_comment_loop_run:
  assumes "0 \<le> pos"
  shows "line_comment_loop code pos =
    pos + int (length (takeWhile (\<lambda>c. c \<noteq> CHR 0x0A) (drop (nat pos) code)))"
  using assms
proof (induction code pos rule: line_comment_loop.induct)
  case (1 code pos)
  show ?case
  proof (cases "pos < int (length code)")
    case inb: True
    note d = drop_nat_step [OF "1.prems" inb]
    show ?thesis
      using "1.IH" "1.prems" inb by (subst line_comment_loop.simps) (simp add: d)
  next
    case False
    then show ?thesis
      by (subst line_comment_loop.simps) simp
  qed
qed

lemma char_at_append:
  "char_at (pre @ c # post) (int (length pre)) = c"
  by (simp add: char_at_def)

lemma char_at_append2:
  "char_at (pre @ c # d # post) (int (length pre) + 1) = d"
proof -
  have "nat (int (length pre) + 1) = Suc (length pre)" by simp
  then show ?thesis by (simp add: char_at_def nth_append)
qed

lemma tokenize_loop_invariant:
  assumes "P la"
    and "\<And>l. P l \<Longrightarrow> current_pos l < int (length code) \<Longrightarrow> P (tokenize_step code l)"
  shows "P (tokenize_loop code la)"
proof -
  have "P la \<Longrightarrow>
      (\<And>l. P l \<Longrightarrow> current_pos l < int (length code) \<Longrightarrow> P (tokenize_step code l)) \<Longrightarrow>
      P (tokenize_loop code la)"
  proof (induction code la rule: tokenize_loop.induct)
    case (1 code la)
    show ?case
    proof (cases "current_pos la < int (length code)")
      case True
      then have "P (tokenize_step code la)" using 1 by blast
      then have "P (tokenize_loop code (tokenize_step code la))"
        using "1.IH" [OF True] "1.prems"(2) by blast
      then show ?thesis using True by (subst tokenize_loop.simps) simp
    next
      case False
      then show ?thesis using "1.prems"(1) by (subst tokenize_loop.simps) simp
    qed
  qed
  then show ?thesis using assms by blast
qed

lemma tokenize_loop_unfold:
  "current_pos la < int (length code) \<Longrightarrow>
     tokenize_loop code la = tokenize_loop code (tokenize_step code la)"
  by (subst tokenize_loop.simps) simp

lemma tokenize_loop_done:
  "\<not> current_pos la < int (length code) \<Longrightarrow> tokenize_loop code la = la"
  by (subst tokenize_loop.simps) simp

lemma block_comment_loop_line: "line \<le> snd (block_comment_loop code pos line)"
proof (induction code pos line rule: block_comment_loop.induct)
  case (1 code pos line)
  show ?case
    using 1 [of "if char_at code pos = CHR 0x0A then line + 1 else line"]
    by (subst block_comment_loop.simps) (auto simp: Let_def split: if_splits)
qed

lemma skip_comment_frame:
  "symbol_table (skip_comment la code) = symbol_table la"
  "lexical_errors (skip_comment la code) = lexical_errors la"
  "tokens (skip_comment la code) = tokens la"
  "line_no la \<le> line_no (skip_comment la code)"
  using block_comment_loop_line [of "line_no la" code "current_pos la + 2"]
  by (simp_all add: skip_comment_def split_beta)

lemma read_quoted_frame:
  "symbol_table (snd (read_string la code)) = symbol_table la"
  "lexical_errors (snd (read_string la code)) = lexical_errors la"
  "tokens (snd (read_string la code)) = tokens la"
  "line_no (snd (read_string la code)) = line_no la"
  "tok_type (fst (read_string la code)) = ''String''"
  "symbol_table (snd (read_character la code)) = symbol_table la"
  "lexical_errors (snd (read_character la code)) = lexical_errors la"
  "tokens (snd (read_character la code)) = tokens la"
  "line_no (snd (read_character la code)) = line_no la"
  "tok_type (fst (read_character la code)) = ''String''"
  by (simp_all add: read_string_def read_character_def split_beta)

lemma read_operator_frame:
  "symbol_table (snd (read_operator la code)) = symbol_table la"
  "lexical_errors (snd (read_operator la code)) = lexical_errors la"
  "tokens (snd (read_operator la code)) = tokens la"
  "line_no (snd (read_operator la code)) = line_no la"
  "tok_type (fst (read_operator la code)) = ''Operator''"
  by (simp_all add: read_operator_def Let_def)

lemma read_operator_length:
  "length (tok_value (fst (read_operator la code))) = 1 \<or>
   length (tok_value (fst (read_operator la code))) = 2"
  by (simp add: read_operator_def Let_def)

lemma push_frame:
  "symbol_table (push_token la t) = symbol_table la"
  "lexical_errors (push_token la t) = lexical_errors la"
  "line_no (push_token la t) = line_no la"
  "tokens (push_token la t) = tokens la @ [t]"
  "tokens (push_symbol la s) = tokens la"
  "lexical_errors (push_symbol la s) = lexical_errors la"
  "line_no (push_symbol la s) = line_no la"
  "tokens (push_lexical_error la s) = tokens la"
  "symbol_table (push_lexical_error la s) = symbol_table la"
  "line_no (push_lexical_error la s) = line_no la"
  "lexical_errors (push_lexical_error la s) = lexical_errors la @ [s]"
  by (simp_all add: push_token_def push_symbol_def push_lexical_error_def)

lemma push_symbol_prefix: "prefix (symbol_table la) (symbol_table (push_symbol la s))"
  by (simp add: push_symbol_def)

lemma push_symbol_distinct:
  "distinct (symbol_table la) \<Longrightarrow> distinct (symbol_table (push_symbol la s))"
  by (simp add: push_symbol_def)

lemma push_symbol_member: "s \<in> set (symbol_table (push_symbol la s))"
  by (simp add: push_symbol_def)

lemma read_lexeme_frame:
  "tokens (snd (read_lexeme la code)) = tokens la"
  "line_no (snd (read_lexeme la code)) = line_no la"
  by (simp_all add: read_lexeme_def Let_def split_beta push_frame)

lemma read_lexeme_symbols:
  "prefix (symbol_table la) (symbol_table (snd (read_lexeme la code)))"
  "distinct (symbol_table la) \<Longrightarrow> distinct (symbol_table (snd (read_lexeme la code)))"
  using push_symbol_prefix [of "la\<lparr>current_pos := fst (read_lexeme_loop code (current_pos la) []) - 1\<rparr>"]
    push_symbol_distinct [of "la\<lparr>current_pos := fst (read_lexeme_loop code (current_pos la) []) - 1\<rparr>"]
  by (simp_all add: read_lexeme_def Let_def split_beta push_frame)

lemma read_lexeme_errors:
  "prefix (lexical_errors la) (lexical_errors (snd (read_lexeme la code)))"
  by (simp add: read_lexeme_def Let_def split_beta push_frame)

lemma read_lexeme_type:
  "tok_type (fst (read_lexeme la code)) \<noteq> ''Operator''"
  by (simp add: read_lexeme_def Let_def split_beta)

lemma tokenize_step_symbols:
  "prefix (symbol_table la) (symbol_table (tokenize_step code la))"
  "distinct (symbol_table la) \<Longrightarrow> distinct (symbol_table (tokenize_step code la))"
  by (cases code la rule: tokenize_step_cases;
      simp add: tokenize_step_whitespace tokenize_step_comment tokenize_step_lexeme
        tokenize_step_string tokenize_step_character tokenize_step_operator
        tokenize_step_punctuation tokenize_step_other Let_def push_frame skip_comment_frame
        read_quoted_frame read_operator_frame read_lexeme_symbols)+

lemma tokenize_step_errors:
  "prefix (lexical_errors la) (lexical_errors (tokenize_step code la))"
  by (cases code la rule: tokenize_step_cases;
      simp add: tokenize_step_whitespace tokenize_step_comment tokenize_step_lexeme
        tokenize_step_string tokenize_step_character tokenize_step_operator
        tokenize_step_punctuation tokenize_step_other Let_def push_frame skip_comment_frame
        read_quoted_frame read_operator_frame read_lexeme_errors)

lemma tokenize_step_line_no: "line_no la \<le> line_no (tokenize_step code la)"
  by (cases code la rule: tokenize_step_cases;
      simp add: tokenize_step_whitespace tokenize_step_comment tokenize_step_lexeme
        tokenize_step_string tokenize_step_character tokenize_step_operator
        tokenize_step_punctuation tokenize_step_other Let_def push_frame skip_comment_frame
        read_quoted_frame read_operator_frame read_lexeme_frame)

lemma read_quoted_loop_prefix: "prefix buf (snd (read_quoted_loop q code pos buf))"
proof (induction q code pos buf rule: read_quoted_loop.induct)
  case (1 q code pos buf)
  show ?case
  proof (cases "pos < int (length code) \<and> char_at code pos \<noteq> q")
    case True
    then have "prefix (if length buf < 255 then buf @ [char_at code pos] else buf)
        (snd (read_quoted_loop q code (pos + 1)
           (if length buf < 255 then buf @ [char_at code pos] else buf)))"
      using "1.IH" by simp
    then have "prefix buf (snd (read_quoted_loop q code (pos + 1)
           (if length buf < 255 then buf @ [char_at code pos] else buf)))"
      by (auto dest: append_prefixD split: if_splits)
    then show ?thesis
      using True by (subst read_quoted_loop.simps) (simp add: Let_def)
  next
    case False
    then show ?thesis
      by (subst read_quoted_loop.simps) (auto simp: Let_def)
  qed
qed

lemma read_quoted_value:
  "hd (tok_value (fst (read_string la code))) = CHR 0x22"
  "hd (tok_value (fst (read_character la code))) = CHR 0x27"
  using read_quoted_loop_prefix [of "[CHR 0x22]" "CHR 0x22" code "current_pos la + 1"]
    read_quoted_loop_prefix [of "[CHR 0x27]" "CHR 0x27" code "current_pos la + 1"]
  by (auto simp: read_string_def read_character_def split_beta prefix_def)

lemma read_lexeme_value:
  assumes "tok_type (fst (read_lexeme la code)) \<noteq> []"
  shows "tok_value (fst (read_lexeme la code)) \<noteq> ''>>='' \<and>
         tok_value (fst (read_lexeme la code)) \<noteq> ''<<=''"
proof -
  have "\<not> is_in_keywords ''>>=''" "\<not> is_in_keywords ''<<=''"
    by (simp_all add: is_in_keywords_def keywords_arr_def)
  moreover have "\<not> is_letter (CHR ''>'')" "\<not> is_letter (CHR ''<'')"
    "\<not> is_digit (CHR ''>'')" "\<not> is_digit (CHR ''<'')"
    by (simp_all add: is_letter_def is_digit_def tolower_def less_eq_char_def)
  ultimately show ?thesis
    using assms by (auto simp: read_lexeme_def Let_def split_beta split: if_splits)
qed

lemma tokenize_step_tokens_ok:
  "\<exists>ts. tokens (tokenize_step code la) = tokens la @ ts \<and> (\<forall>t \<in> set ts. token_text_ok t)"
proof (cases code la rule: tokenize_step_cases)
  case lexeme
  show ?thesis
    using read_lexeme_type [of la code] read_lexeme_value [of la code]
    by (simp add: tokenize_step_lexeme [OF lexeme] Let_def push_frame read_lexeme_frame
        token_text_ok_def)
next
  case string
  have "tok_value (fst (read_string la code)) \<noteq> ''>>='' \<and>
      tok_value (fst (read_string la code)) \<noteq> ''<<=''"
    using read_quoted_value(1) [of la code] by auto
  then show ?thesis
    using string
    by (simp add: tokenize_step_string push_frame read_quoted_frame token_text_ok_def)
next
  case character
  have "tok_value (fst (read_character la code)) \<noteq> ''>>='' \<and>
      tok_value (fst (read_character la code)) \<noteq> ''<<=''"
    using read_quoted_value(2) [of la code] by auto
  then show ?thesis
    using character
    by (simp add: tokenize_step_character push_frame read_quoted_frame token_text_ok_def)
next
  case operator
  then show ?thesis
    using read_operator_length [of la code]
    by (auto simp: tokenize_step_operator push_frame read_operator_frame token_text_ok_def)
qed (simp_all add: tokenize_step_whitespace tokenize_step_comment
        tokenize_step_punctuation tokenize_step_other push_frame skip_comment_frame
        token_text_ok_def)

lemma tokenize_loop_tokens_ok:
  assumes "\<forall>t \<in> set (tokens la). token_text_ok t"
  shows "\<forall>t \<in> set (tokens (tokenize_loop code la)). token_text_ok t"
proof (rule tokenize_loop_invariant
    [where P = "\<lambda>l::LexicalAnalyzer. \<forall>t \<in> set (tokens l). token_text_ok t"])
  show "\<forall>t \<in> set (tokens la). token_text_ok t" by (rule assms)
next
  fix l :: LexicalAnalyzer
  assume "\<forall>t \<in> set (tokens l). token_text_ok t"
  then show "\<forall>t \<in> set (tokens (tokenize_step code l)). token_text_ok t"
    using tokenize_step_tokens_ok [of code l] by auto
qed

lemma tokenize_loop_symbols_prefix:
  "prefix (symbol_table la) (symbol_table (tokenize_loop code la))"
proof (rule tokenize_loop_invariant
    [where P = "\<lambda>l::LexicalAnalyzer. prefix (symbol_table la) (symbol_table l)"])
  fix l :: LexicalAnalyzer
  assume "prefix (symbol_table la) (symbol_table l)"
  then show "prefix (symbol_table la) (symbol_table (tokenize_step code l))"
    by (rule prefix_order.trans) (rule tokenize_step_symbols(1))
qed simp

lemma tokenize_loop_symbols_distinct:
  assumes "distinct (symbol_table la)"
  shows "distinct (symbol_table (tokenize_loop code la))"
  by (rule tokenize_loop_invariant
      [where P = "\<lambda>l::LexicalAnalyzer. distinct (symbol_table l)"])
    (use assms tokenize_step_symbols(2) in auto)

lemma tokenize_loop_errors_prefix:
  "prefix (lexical_errors la) (lexical_errors (tokenize_loop code la))"
proof (rule tokenize_loop_invariant
    [where P = "\<lambda>l::LexicalAnalyzer. prefix (lexical_errors la) (lexical_errors l)"])
  fix l :: LexicalAnalyzer
  assume "prefix (lexical_errors la) (lexical_errors l)"
  then show "prefix (lexical_errors la) (lexical_errors (tokenize_step code l))"
    by (rule prefix_order.trans) (rule tokenize_step_errors)
qed simp

lemma tokenize_loop_line_no: "line_no la \<le> line_no (tokenize_loop code la)"
proof (rule tokenize_loop_invariant
    [where P = "\<lambda>l::LexicalAnalyzer. line_no la \<le> line_no l"])
  fix l :: LexicalAnalyzer
  assume "line_no la \<le> line_no l"
  then show "line_no la \<le> line_no (tokenize_step code l)"
    by (rule order_trans) (rule tokenize_step_line_no)
qed simp

lemma read_lexeme_loop_at:
  assumes "code = pre @ run @ post" "\<forall>c \<in> set run. \<not> is_delimiter c"
    "post = [] \<or> is_delimiter (hd post)"
  shows "read_lexeme_loop code (int (length pre)) [] =
    (int (length pre + length run), take 255 run)"
proof -
  have "takeWhile (\<lambda>c. \<not> is_delimiter c) (run @ post) = run"
    using assms(2,3) by (cases post) (simp_all add: takeWhile_append2)
  then show ?thesis
    using assms(1) by (simp add: read_lexeme_loop_run)
qed

lemma peek_at:
  assumes "code = pre @ post" "current_pos la + 1 = int (length pre)"
  shows "peek_next_non_whitespace la code =
    (case dropWhile is_whitespace post of [] \<Rightarrow> CHR 0x00 | c # r \<Rightarrow> c)"
proof -
  let ?w = "takeWhile is_whitespace post"
  have pl: "peek_loop code (current_pos la + 1) = int (length pre + length ?w)"
    using assms by (simp add: peek_loop_run)
  have split: "code = (pre @ ?w) @ dropWhile is_whitespace post"
    using assms(1) by simp
  show ?thesis
  proof (cases "dropWhile is_whitespace post")
    case Nil
    then have "length code = length pre + length ?w"
      using split by (metis append_Nil2 length_append)
    then have "peek_next_non_whitespace la code = CHR 0x00"
      using pl by (simp add: peek_next_non_whitespace_def)
    then show ?thesis
      unfolding Nil by simp
  next
    case (Cons c r)
    then have code: "code = (pre @ ?w) @ c # r"
      using split by simp
    have "char_at code (int (length (pre @ ?w))) = c"
      unfolding code by (rule char_at_append)
    moreover have "length code = length pre + length ?w + Suc (length r)"
      using arg_cong [OF code, of length] by simp
    then have "int (length pre + length ?w) < int (length code)"
      by simp
    ultimately have "peek_next_non_whitespace la code = c"
      using pl by (simp add: peek_next_non_whitespace_def)
    then show ?thesis
      unfolding Cons by simp
  qed
qed

lemma keyword_starts_with_letter:
  assumes "is_in_keywords s"
  shows "s \<noteq> [] \<and> is_letter (hd s)"
  using assms
  by (auto simp: is_in_keywords_def keywords_arr_def is_letter_def tolower_def less_eq_char_def)

lemma digit_class:
  assumes "is_digit c"
  shows "\<not> is_letter c" "c \<noteq> CHR ''_''" "\<not> is_delimiter c" "\<not> is_space c"
    "c \<noteq> CHR ''+''" "c \<noteq> CHR ''-''" "c \<noteq> CHR ''.''" "tolower c \<noteq> CHR ''x''"
  using assms
  by (auto simp: is_digit_def is_letter_def is_delimiter_def is_whitespace_def is_space_def
      strchr_found_def operator_chars_def punctuation_def tolower_def less_eq_char_def
      split: if_splits)

lemma strtod_endptr_digits:
  assumes "s \<noteq> []" "\<forall>c \<in> set s. is_digit c"
  shows "strtod_endptr s = []"
proof -
  obtain c r where s: "s = c # r" using assms(1) by (cases s) auto
  have c: "is_digit c" using assms(2) s by simp
  have sp: "dropWhile is_space s = s"
    using digit_class(4) [OF c] s by simp
  have sg: "skip_sign s = s"
    using digit_class(5,6) [OF c] s by (simp add: skip_sign_def)
  have tw: "takeWhile is_digit s = s" "dropWhile is_digit s = []"
    using assms(2) by simp_all
  have hx: "\<not> lower_prefix ''0x'' s"
  proof (cases r)
    case Nil
    then show ?thesis using s by (simp add: lower_prefix_def)
  next
    case (Cons d r')
    then have "is_digit d" using assms(2) s by simp
    then show ?thesis
      using digit_class(8) [of d] s Cons by (simp add: lower_prefix_def)
  qed
  have m: "mantissa_rest is_digit s = Some []"
    unfolding mantissa_rest_def tw using assms(1) by simp
  show ?thesis
    using hx m by (simp add: strtod_endptr_def sp sg exponent_rest_def)
qed

lemma read_lexeme_at:
  assumes "code = pre @ run @ post" "\<forall>c \<in> set run. \<not> is_delimiter c"
    "post = [] \<or> is_delimiter (hd post)" "current_pos la = int (length pre)"
  shows "read_lexeme la code =
    (let lexeme = take 255 run;
         la1 = la\<lparr>current_pos := int (length pre + length run) - 1\<rparr>
     in if is_in_keywords lexeme then (\<lparr>tok_type = ''Keyword'', tok_value = lexeme\<rparr>, la1)
        else if length lexeme > 0 then
          (if (is_letter (hd lexeme) \<or> hd lexeme = CHR ''_'') \<and> valid_rest lexeme then
             (\<lparr>tok_type = ''Identifier'', tok_value = lexeme\<rparr>,
              if peek_next_non_whitespace la1 code \<noteq> CHR ''(''
              then push_symbol la1 lexeme else la1)
           else if is_digit (hd lexeme) \<and> strtod_endptr lexeme = [] then
             (\<lparr>tok_type = ''Constant'', tok_value = lexeme\<rparr>, la1)
           else (\<lparr>tok_type = [], tok_value = []\<rparr>, push_lexical_error la1 lexeme))
        else (\<lparr>tok_type = [], tok_value = []\<rparr>, la1))"
  using read_lexeme_loop_at [OF assms(1,2,3)] assms(4)
  by (simp add: read_lexeme_def Let_def)

lemma hd_run_at:
  assumes "code = pre @ run @ post" "run \<noteq> []" "current_pos la = int (length pre)"
  shows "char_at code (current_pos la) = hd run"
proof -
  obtain c r where "run = c # r" using assms(2) by (cases run) auto
  then show ?thesis
    using assms(1,3) char_at_append [of pre c "r @ post"] by simp
qed

lemma keyword_length: "is_in_keywords s \<Longrightarrow> length s \<le> 8"
  by (auto simp: is_in_keywords_def keywords_arr_def)

lemma tokenize_whole_identifier:
  assumes "code \<noteq> []" "\<forall>c \<in> set code. \<not> is_delimiter c"
    "is_letter (hd code) \<or> hd code = CHR ''_''"
    "valid_rest (take 255 code)" "\<not> is_in_keywords (take 255 code)"
  shows "tokenize la code =
    (push_symbol la (take 255 code))
      \<lparr>tokens := [\<lparr>tok_type = ''Identifier'', tok_value = take 255 code\<rparr>],
       current_pos := int (length code)\<rparr>"
proof -
  let ?la0 = "la\<lparr>tokens := [], current_pos := 0\<rparr>"
  let ?la1 = "?la0\<lparr>current_pos := int (length ([] :: string) + length code) - 1\<rparr>"
  have split: "code = [] @ code @ []" by simp
  have ch: "char_at code 0 = hd code"
    using hd_run_at [OF split assms(1), of ?la0] by simp
  have lx: "is_letter (char_at code (current_pos ?la0)) \<or>
      char_at code (current_pos ?la0) = CHR ''_'' \<or> is_digit (char_at code (current_pos ?la0))"
    using ch assms(3) by auto
  have hd: "hd (take 255 code) = hd code"
    using assms(1) by (cases code) simp_all
  have pk: "peek_next_non_whitespace ?la1 code = CHR 0x00"
    using peek_at [of code code "[]" ?la1] by simp
  have rl: "read_lexeme ?la0 code =
      (\<lparr>tok_type = ''Identifier'', tok_value = take 255 code\<rparr>, push_symbol ?la1 (take 255 code))"
    using read_lexeme_at [OF split assms(2), of ?la0] assms(1,3,4,5) pk
    by (simp add: Let_def hd)
  have st: "tokenize_step code ?la0 =
      (push_symbol la (take 255 code))
        \<lparr>tokens := [\<lparr>tok_type = ''Identifier'', tok_value = take 255 code\<rparr>],
         current_pos := int (length code)\<rparr>"
    unfolding tokenize_step_lexeme [OF lx]
    by (simp add: rl Let_def push_token_def push_symbol_def)
  have "tokenize la code = tokenize_loop code (tokenize_step code ?la0)"
    unfolding tokenize_def using assms(1) by (intro tokenize_loop_unfold) simp
  also have "\<dots> = (push_symbol la (take 255 code))
        \<lparr>tokens := [\<lparr>tok_type = ''Identifier'', tok_value = take 255 code\<rparr>],
         current_pos := int (length code)\<rparr>"
    unfolding st by (rule tokenize_loop_done) simp
  finally show ?thesis .
qed

lemma letter_a_class:
  "is_letter (CHR ''a'')" "\<not> is_delimiter (CHR ''a'')" "\<not> is_delimiter (CHR ''$'')"
  by (simp_all add: is_letter_def tolower_def less_eq_char_def is_delimiter_def
      is_whitespace_def strchr_found_def operator_chars_def punctuation_def)

lemma long_run_tokenize:
  assumes "code = replicate 255 (CHR ''a'') @ r" "set r \<subseteq> {CHR ''a'', CHR ''$''}"
  shows "tokenize init_lexical_analyzer code =
    \<lparr>symbol_table = [replicate 255 (CHR ''a'')], lexical_errors = [],
     tokens = [\<lparr>tok_type = ''Identifier'', tok_value = replicate 255 (CHR ''a'')\<rparr>],
     current_pos = int (length code), line_no = 1\<rparr>"
proof -
  have tk: "take 255 code = replicate 255 (CHR ''a'')"
    using assms(1) by simp
  have ne: "code \<noteq> []" using assms(1) by auto
  have nd: "\<forall>c \<in> set code. \<not> is_delimiter c"
    using assms letter_a_class(2,3) by auto
  have hd: "is_letter (hd code) \<or> hd code = CHR ''_''"
    using assms(1) letter_a_class(1) by (simp add: hd_append)
  have vr: "valid_rest (take 255 code)"
    unfolding tk valid_rest_def using letter_a_class(1) by (auto dest: in_set_dropD)
  have nk: "\<not> is_in_keywords (take 255 code)"
    unfolding tk using keyword_length [of "replicate 255 (CHR ''a'')"] by auto
  show ?thesis
    unfolding tokenize_whole_identifier [OF ne nd hd vr nk] tk
    by (simp add: push_symbol_def init_lexical_analyzer_def)
qed

lemma unterminated_quote_step:
  assumes "code = pre @ q # rest" "q = CHR 0x22 \<or> q = CHR 0x27" "q \<notin> set rest"
    "current_pos la = int (length pre)"
  shows "tokenize_step code la =
    la\<lparr>tokens := tokens la @ [\<lparr>tok_type = ''String'', tok_value = take 255 (q # rest)\<rparr>],
       current_pos := int (length code) + 1\<rparr>"
proof -
  have ch: "char_at code (current_pos la) = q"
    using assms(1,4) char_at_append [of pre q rest] by simp
  have "nat (current_pos la + 1) = Suc (length pre)"
    using assms(4) by simp
  then have dr: "drop (nat (current_pos la + 1)) code = rest"
    using assms(1) by simp
  have "read_quoted_loop q code (current_pos la + 1) [q] =
      (max (current_pos la + 1) (int (length code)),
       [q] @ take (255 - length [q]) (drop (nat (current_pos la + 1)) code))"
  proof (rule read_quoted_loop_unterminated)
    show "0 \<le> current_pos la + 1" using assms(4) by simp
    show "q \<notin> set (drop (nat (current_pos la + 1)) code)"
      unfolding dr by (rule assms(3))
  qed
  moreover have "max (current_pos la + 1) (int (length code)) = int (length code)"
    using assms(1,4) by simp
  ultimately have lp: "read_quoted_loop q code (current_pos la + 1) [q] =
      (int (length code), take 255 (q # rest))"
    by (simp add: dr)
  show ?thesis
  proof (cases "q = CHR 0x22")
    case True
    then show ?thesis
      using ch lp by (simp add: tokenize_step_string read_string_def push_token_def)
  next
    case False
    then have "q = CHR 0x27" using assms(2) by simp
    then show ?thesis
      using ch lp by (simp add: tokenize_step_character read_character_def push_token_def)
  qed
qed

lemma scan_reaches_final:
  "scan_reaches code la0 la \<Longrightarrow> tokenize_loop code la = tokenize la0 code"
  by (induction rule: scan_reaches.induct) (simp_all add: tokenize_def tokenize_loop_unfold)

lemma distinct_count_list_one:
  "distinct xs \<Longrightarrow> x \<in> set xs \<Longrightarrow> count_list xs x = 1"
  by (induction xs) auto

lemma identifier_not_delimiter:
  assumes "ident \<noteq> []" "is_letter (hd ident) \<or> hd ident = CHR ''_''" "valid_rest ident"
  shows "\<forall>c \<in> set ident. \<not> is_delimiter c"
proof -
  obtain c r where i: "ident = c # r" using assms(1) by (cases ident) auto
  have "is_letter x \<or> x = CHR ''_'' \<or> is_digit x" if "x \<in> set ident" for x
    using that assms(2,3) i by (auto simp: valid_rest_def)
  then show ?thesis
    using letter_not_delimiter by (auto simp: is_delimiter_def)
qed

lemma function_reference_read:
  assumes "code = pre @ ident @ ws @ CHR ''('' # rest" "current_pos la = int (length pre)"
    and "ident \<noteq> []" "\<forall>c \<in> set ident. \<not> is_delimiter c" "\<forall>c \<in> set ws. is_whitespace c"
  shows "symbol_table (snd (read_lexeme la code)) = symbol_table la"
proof -
  let ?post = "ws @ CHR ''('' # rest"
  let ?la1 = "la\<lparr>current_pos := int (length pre + length ident) - 1\<rparr>"
  have par: "is_delimiter (CHR ''('')" "\<not> is_whitespace (CHR ''('')"
    by (simp_all add: is_delimiter_def strchr_found_def punctuation_def is_whitespace_def)
  have hp: "?post = [] \<or> is_delimiter (hd ?post)"
    using assms(5) par(1) by (cases ws) (simp_all add: is_delimiter_def)
  have dw: "dropWhile is_whitespace ?post = CHR ''('' # rest"
    using assms(5) par(2) by (simp add: dropWhile_append2)
  have "peek_next_non_whitespace ?la1 code =
      (case dropWhile is_whitespace ?post of [] \<Rightarrow> CHR 0x00 | c # r \<Rightarrow> c)"
    using assms(1,3) by (intro peek_at [of code "pre @ ident" ?post ?la1]) simp_all
  then have pk: "peek_next_non_whitespace ?la1 code = CHR ''(''"
    unfolding dw by simp
  have "read_lexeme la code =
      (let lexeme = take 255 ident
       in if is_in_keywords lexeme then (\<lparr>tok_type = ''Keyword'', tok_value = lexeme\<rparr>, ?la1)
          else if length lexeme > 0 then
            (if (is_letter (hd lexeme) \<or> hd lexeme = CHR ''_'') \<and> valid_rest lexeme then
               (\<lparr>tok_type = ''Identifier'', tok_value = lexeme\<rparr>, ?la1)
             else if is_digit (hd lexeme) \<and> strtod_endptr lexeme = [] then
               (\<lparr>tok_type = ''Constant'', tok_value = lexeme\<rparr>, ?la1)
             else (\<lparr>tok_type = [], tok_value = []\<rparr>, push_lexical_error ?la1 lexeme))
          else (\<lparr>tok_type = [], tok_value = []\<rparr>, ?la1))"
    unfolding read_lexeme_at [OF assms(1,4) hp assms(2)] Let_def pk by simp
  then show ?thesis
    by (simp add: Let_def push_lexical_error_def)
qed

lemma identifier_inserted:
  assumes "code = pre @ ident @ post" "current_pos la = int (length pre)"
    and "ident \<noteq> []" "is_letter (hd ident) \<or> hd ident = CHR ''_''" "valid_rest ident"
    and "length ident \<le> 255" "\<not> is_in_keywords ident"
    and "post = [] \<or> is_delimiter (hd post)"
    and "\<forall>ws rest. (\<forall>c \<in> set ws. is_whitespace c) \<longrightarrow> post \<noteq> ws @ CHR ''('' # rest"
  shows "ident \<in> set (symbol_table (tokenize_step code la))"
proof -
  let ?la1 = "la\<lparr>current_pos := int (length pre + length ident) - 1\<rparr>"
  have nd: "\<forall>c \<in> set ident. \<not> is_delimiter c"
    using identifier_not_delimiter [OF assms(3,4,5)] .
  have lx: "is_letter (char_at code (current_pos la)) \<or>
      char_at code (current_pos la) = CHR ''_'' \<or> is_digit (char_at code (current_pos la))"
    using hd_run_at [OF assms(1,3,2)] assms(4) by auto
  have pk0: "peek_next_non_whitespace ?la1 code =
      (case dropWhile is_whitespace post of [] \<Rightarrow> CHR 0x00 | c # r \<Rightarrow> c)"
    using assms(1,3) by (intro peek_at [of code "pre @ ident" post ?la1]) simp_all
  have pk: "peek_next_non_whitespace ?la1 code \<noteq> CHR ''(''"
  proof (cases "dropWhile is_whitespace post")
    case Nil
    show ?thesis unfolding pk0 Nil by simp
  next
    case (Cons c r)
    have "post = takeWhile is_whitespace post @ c # r"
      using Cons takeWhile_dropWhile_id [of is_whitespace post] by simp
    moreover have "\<forall>x \<in> set (takeWhile is_whitespace post). is_whitespace x"
      by (auto dest: set_takeWhileD)
    ultimately have "c \<noteq> CHR ''(''"
      using assms(9) by blast
    then show ?thesis unfolding pk0 Cons by simp
  qed
  have "read_lexeme la code =
      (\<lparr>tok_type = ''Identifier'', tok_value = ident\<rparr>, push_symbol ?la1 ident)"
    unfolding read_lexeme_at [OF assms(1) nd assms(8,2)]
    using assms(3,4,5,6,7) pk by (simp add: Let_def)
  then show ?thesis
    unfolding tokenize_step_lexeme [OF lx]
    by (simp add: Let_def push_frame push_symbol_member)
qed

lemma read_quoted_loop_terminated:
  assumes "0 \<le> pos" "q \<in> set (drop (nat pos) code)"
  shows "fst (read_quoted_loop q code pos buf) < int (length code)"
  using assms
proof (induction q code pos buf rule: read_quoted_loop.induct)
  case (1 q code pos buf)
  have inb: "pos < int (length code)"
  proof (rule ccontr)
    assume "\<not> pos < int (length code)"
    then have "drop (nat pos) code = []" by simp
    then show False using "1.prems"(2) by simp
  qed
  note d = drop_nat_step [OF "1.prems"(1) inb]
  let ?buf = "if length buf < 255 then buf @ [char_at code pos] else buf"
  show ?case
  proof (cases "char_at code pos = q")
    case True
    then show ?thesis
      using inb by (subst read_quoted_loop.simps) (simp add: Let_def)
  next
    case False
    then have "q \<in> set (drop (nat (pos + 1)) code)"
      using "1.prems"(2) by (auto simp: d)
    then have "fst (read_quoted_loop q code (pos + 1) ?buf) < int (length code)"
      using "1.IH" [OF inb refl refl False] "1.prems"(1) by simp
    then show ?thesis
      using inb False by (subst read_quoted_loop.simps) (simp add: Let_def)
  qed
qed

lemma read_quoted_loop_end:
  assumes "0 \<le> pos" "pos \<le> int (length code)"
  shows "fst (read_quoted_loop q code pos buf) = int (length code) \<longleftrightarrow>
         q \<notin> set (drop (nat pos) code)"
proof (cases "q \<in> set (drop (nat pos) code)")
  case True
  then show ?thesis
    using read_quoted_loop_terminated [OF assms(1) True, of buf] by simp
next
  case False
  then show ?thesis
    using read_quoted_loop_unterminated [OF assms(1) False, of buf] assms(2) by simp
qed

lemma length_takeWhile_all:
  "length (takeWhile P xs) = length xs \<longleftrightarrow> (\<forall>x \<in> set xs. P x)"
proof (induction xs)
  case Nil
  show ?case by simp
next
  case (Cons x xs)
  have "length (takeWhile P xs) \<le> length xs" by (rule length_takeWhile_le)
  then show ?case using Cons by auto
qed

lemma line_comment_loop_end:
  assumes "0 \<le> pos" "pos \<le> int (length code)"
  shows "line_comment_loop code pos = int (length code) \<longleftrightarrow>
         CHR 0x0A \<notin> set (drop (nat pos) code)"
proof -
  let ?d = "drop (nat pos) code"
  let ?t = "takeWhile (\<lambda>c. c \<noteq> CHR 0x0A) ?d"
  have ld: "int (length ?d) = int (length code) - pos"
    using assms by simp
  have "length ?t = length ?d \<longleftrightarrow> CHR 0x0A \<notin> set ?d"
    unfolding length_takeWhile_all by blast
  moreover have "line_comment_loop code pos = pos + int (length ?t)"
    by (rule line_comment_loop_run [OF assms(1)])
  ultimately show ?thesis
    using ld by linarith
qed

lemma char_at_in_set:
  assumes "char_at code pos \<noteq> CHR 0x00"
  shows "0 \<le> pos \<and> pos < int (length code) \<and> char_at code pos \<in> set code"
  using assms by (auto simp: char_at_def split: if_splits)

lemma not_reader_hits_end:
  assumes "char_at code pos \<noteq> CHR 0x22" "char_at code pos \<noteq> CHR 0x27"
    "char_at code pos \<noteq> CHR ''/''"
  shows "\<not> reader_hits_end code pos"
  using assms by (simp add: reader_hits_end_def)

lemma tokenize_step_end:
  assumes "0 \<le> current_pos la" "current_pos la < int (length code)"
  shows "current_pos (tokenize_step code la) = int (length code) + 1 \<longleftrightarrow>
         reader_hits_end code (current_pos la)"
proof (cases code la rule: tokenize_step_cases)
  case whitespace
  then have "\<not> reader_hits_end code (current_pos la)"
    by (intro not_reader_hits_end) (auto simp: is_whitespace_def)
  then show ?thesis
    using whitespace assms by (simp add: tokenize_step_whitespace)
next
  case comment
  let ?p = "current_pos la"
  show ?thesis
  proof (cases "char_at code (?p + 1) = CHR ''/''")
    case True
    have sk: "current_pos (skip_comment la code) = line_comment_loop code ?p"
      using comment True by (simp add: skip_comment_def)
    have "line_comment_loop code ?p = int (length code) \<longleftrightarrow>
        CHR 0x0A \<notin> set (drop (nat ?p) code)"
      using assms by (intro line_comment_loop_end) simp_all
    then show ?thesis
      using comment True
      by (simp add: tokenize_step_comment sk reader_hits_end_def)
  next
    case False
    then have star: "char_at code (?p + 1) = CHR ''*''"
      using comment(3) by simp
    have sk: "current_pos (skip_comment la code) =
        fst (block_comment_loop code (?p + 2) (line_no la))"
      using comment star by (simp add: skip_comment_def split_beta)
    have "?p + 2 \<le> fst (block_comment_loop code (?p + 2) (line_no la))"
      by (rule block_comment_loop_ge)
    moreover have "fst (block_comment_loop code (?p + 2) (line_no la))
        \<le> max (?p + 2) (int (length code) - 1)"
      by (rule block_comment_loop_le)
    ultimately have "fst (block_comment_loop code (?p + 2) (line_no la)) = int (length code)
        \<longleftrightarrow> ?p + 2 = int (length code)"
      using comment(2) by linarith
    then show ?thesis
      using comment star
      by (simp add: tokenize_step_comment sk reader_hits_end_def)
  qed
next
  case lexeme
  have "fst (read_lexeme_loop code (current_pos la) []) \<le> int (length code)"
    using read_lexeme_loop_le [of code "current_pos la" "[]"] assms by simp
  moreover have "\<not> reader_hits_end code (current_pos la)"
    using letter_not_special [OF lexeme] by (intro not_reader_hits_end)
  ultimately show ?thesis
    by (simp add: tokenize_step_lexeme [OF lexeme] Let_def current_pos_read_lexeme)
next
  case string
  have "fst (read_quoted_loop (CHR 0x22) code (current_pos la + 1) [CHR 0x22]) = int (length code)
      \<longleftrightarrow> CHR 0x22 \<notin> set (drop (nat (current_pos la + 1)) code)"
    using assms by (intro read_quoted_loop_end) simp_all
  then show ?thesis
    using string
    by (simp add: tokenize_step_string current_pos_read_string reader_hits_end_def)
next
  case character
  have "fst (read_quoted_loop (CHR 0x27) code (current_pos la + 1) [CHR 0x27]) = int (length code)
      \<longleftrightarrow> CHR 0x27 \<notin> set (drop (nat (current_pos la + 1)) code)"
    using assms by (intro read_quoted_loop_end) simp_all
  then show ?thesis
    using character
    by (simp add: tokenize_step_character current_pos_read_character reader_hits_end_def)
next
  case operator
  have q: "char_at code (current_pos la) \<noteq> CHR 0x22" "char_at code (current_pos la) \<noteq> CHR 0x27"
    using operator(1) by (auto simp: strchr_found_def operator_chars_def)
  have "\<not> reader_hits_end code (current_pos la)"
    using operator(2) q assms by (auto simp: reader_hits_end_def)
  then show ?thesis
    using assms by (simp add: tokenize_step_operator [OF operator] current_pos_read_operator)
next
  case punctuation
  then have "\<not> reader_hits_end code (current_pos la)"
    by (intro not_reader_hits_end) (auto simp: strchr_found_def punctuation_def operator_chars_def)
  then show ?thesis
    using assms by (simp add: tokenize_step_punctuation [OF punctuation])
next
  case other
  then have "\<not> reader_hits_end code (current_pos la)"
    by (intro not_reader_hits_end) (auto simp: strchr_found_def operator_chars_def)
  then show ?thesis
    using assms by (simp add: tokenize_step_other [OF other])
qed

lemma scan_reaches_pos:
  "scan_reaches code la0 la \<Longrightarrow> 0 \<le> current_pos la"
proof (induction rule: scan_reaches.induct)
  case start
  show ?case by simp
next
  case (step la)
  then show ?case using tokenize_step_pos [of la code] by simp
qed

lemma scan_reaches_loop:
  assumes "scan_reaches code la0 la"
  shows "scan_reaches code la0 (tokenize_loop code la)"
  by (rule tokenize_loop_invariant [where P = "scan_reaches code la0"])
    (use assms scan_reaches.step in auto)

lemma scan_reaches_result: "scan_reaches code la0 (tokenize la0 code)"
  unfolding tokenize_def by (rule scan_reaches_loop) (rule scan_reaches.start)

lemma reader_hits_end_char:
  assumes "reader_hits_end code pos"
  shows "CHR 0x22 \<in> set code \<or> CHR 0x27 \<in> set code \<or> CHR ''/'' \<in> set code"
proof -
  have "char_at code pos = CHR 0x22 \<or> char_at code pos = CHR 0x27 \<or> char_at code pos = CHR ''/''"
    using assms by (auto simp: reader_hits_end_def)
  moreover have "char_at code pos \<noteq> CHR 0x00 \<Longrightarrow> char_at code pos \<in> set code"
    using char_at_in_set by blast
  ultimately show ?thesis by auto
qed










lemma function_reference_occurrence:
  assumes "code = pre @ ident @ ws @ CHR ''('' # rest" "current_pos la = int (length pre)"
    and "ident \<noteq> []" "is_letter (hd ident) \<or> hd ident = CHR ''_''"
    and "\<forall>c \<in> set ident. \<not> is_delimiter c" "\<forall>c \<in> set ws. is_whitespace c"
  shows "symbol_table (tokenize_step code la) = symbol_table la"
proof -
  have lx: "is_letter (char_at code (current_pos la)) \<or>
      char_at code (current_pos la) = CHR ''_'' \<or> is_digit (char_at code (current_pos la))"
    using hd_run_at [OF assms(1,3,2)] assms(4) by auto
  show ?thesis
    unfolding tokenize_step_lexeme [OF lx]
    by (simp add: Let_def push_frame function_reference_read [OF assms(1,2,3,5,6)])
qed

lemma count_list_drop_mono:
  "i \<le> j \<Longrightarrow> count_list (drop j xs) x \<le> count_list (drop i xs) x"
proof (induction xs arbitrary: i j)
  case Nil
  show ?case by simp
next
  case (Cons a xs)
  show ?case
  proof (cases i)
    case 0
    have "count_list (drop j (a # xs)) x \<le> count_list (a # xs) x"
    proof (cases j)
      case 0
      then show ?thesis by simp
    next
      case (Suc j')
      have "count_list (drop j' xs) x \<le> count_list (drop 0 xs) x"
        by (rule Cons.IH) simp
      then show ?thesis using Suc by simp
    qed
    then show ?thesis using 0 by simp
  next
    case (Suc i')
    then obtain j' where j: "j = Suc j'" "i' \<le> j'"
      using Cons.prems by (cases j) auto
    show ?thesis
      using Cons.IH [OF j(2)] Suc j(1) by simp
  qed
qed

lemma lines_left_mono: "p \<le> q \<Longrightarrow> lines_left code q \<le> lines_left code p"
  unfolding lines_left_def using count_list_drop_mono [of "nat p" "nat q" code "CHR 0x0A"]
  by simp

lemma lines_left_step:
  assumes "0 \<le> pos" "pos < int (length code)"
  shows "lines_left code pos =
    (if char_at code pos = CHR 0x0A then 1 else 0) + lines_left code (pos + 1)"
  unfolding lines_left_def by (subst drop_nat_step [OF assms]) simp

lemma block_comment_loop_lines:
  assumes "0 \<le> pos"
  shows "snd (block_comment_loop code pos line) +
           lines_left code (fst (block_comment_loop code pos line))
         \<le> line + lines_left code pos"
  using assms
proof (induction code pos line rule: block_comment_loop.induct)
  case (1 code pos line)
  let ?line = "if char_at code pos = CHR 0x0A then line + 1 else line"
  show ?case
  proof (cases "pos < int (length code) - 1")
    case inb: True
    then have st: "lines_left code pos =
        (if char_at code pos = CHR 0x0A then 1 else 0) + lines_left code (pos + 1)"
      using "1.prems" by (intro lines_left_step) simp_all
    show ?thesis
    proof (cases "char_at code pos = CHR ''*'' \<and> char_at code (pos + 1) = CHR ''/''")
      case True
      then show ?thesis
        using inb st by (subst (1 2) block_comment_loop.simps) (simp add: Let_def)
    next
      case False
      have "snd (block_comment_loop code (pos + 1) ?line) +
           lines_left code (fst (block_comment_loop code (pos + 1) ?line))
         \<le> ?line + lines_left code (pos + 1)"
        using "1.IH" [OF inb refl False] "1.prems" by simp
      then show ?thesis
        using inb False st
        by (subst (1 2) block_comment_loop.simps) (auto simp: Let_def split: if_splits)
    qed
  next
    case False
    then show ?thesis
      by (subst (1 2) block_comment_loop.simps) simp
  qed
qed

lemma tokenize_step_lines:
  assumes "0 \<le> current_pos la" "current_pos la < int (length code)"
  shows "line_no (tokenize_step code la) + lines_left code (current_pos (tokenize_step code la))
         \<le> line_no la + lines_left code (current_pos la)"
proof -
  let ?p = "current_pos la"
  have same: ?thesis if "line_no (tokenize_step code la) = line_no la"
    using that tokenize_step_pos [OF assms(2)] lines_left_mono [of ?p "current_pos (tokenize_step code la)" code]
    by simp
  show ?thesis
  proof (cases code la rule: tokenize_step_cases)
    case whitespace
    show ?thesis
      using lines_left_step [OF assms]
      by (simp add: tokenize_step_whitespace [OF whitespace])
  next
    case comment
    show ?thesis
    proof (cases "char_at code (?p + 1) = CHR ''/''")
      case True
      then have "line_no (tokenize_step code la) = line_no la"
        using comment by (simp add: tokenize_step_comment skip_comment_def)
      then show ?thesis by (rule same)
    next
      case False
      then have star: "char_at code (?p + 1) = CHR ''*''"
        using comment(3) by simp
      let ?b = "block_comment_loop code (?p + 2) (line_no la)"
      have sk: "skip_comment la code = la\<lparr>current_pos := fst ?b, line_no := snd ?b\<rparr>"
        using comment star by (simp add: skip_comment_def split_beta)
      have "snd ?b + lines_left code (fst ?b) \<le> line_no la + lines_left code (?p + 2)"
        using assms(1) by (intro block_comment_loop_lines) simp
      moreover have "lines_left code (fst ?b + 1) \<le> lines_left code (fst ?b)"
        by (rule lines_left_mono) simp
      moreover have "lines_left code (?p + 2) \<le> lines_left code ?p"
        by (rule lines_left_mono) simp
      ultimately show ?thesis
        using comment by (simp add: tokenize_step_comment sk)
    qed
  next
    case lexeme
    show ?thesis
      by (rule same) (simp add: tokenize_step_lexeme [OF lexeme] Let_def push_frame read_lexeme_frame)
  next
    case string
    then show ?thesis
      by (intro same) (simp add: tokenize_step_string push_frame read_quoted_frame)
  next
    case character
    then show ?thesis
      by (intro same) (simp add: tokenize_step_character push_frame read_quoted_frame)
  next
    case operator
    then show ?thesis
      by (intro same) (simp add: tokenize_step_operator push_frame read_operator_frame)
  next
    case punctuation
    then show ?thesis
      by (intro same) (simp add: tokenize_step_punctuation push_frame)
  next
    case other
    then show ?thesis
      by (intro same) (simp add: tokenize_step_other)
  qed
qed

lemma tokenize_loop_lines:
  assumes "0 \<le> current_pos la"
  shows "line_no (tokenize_loop code la) \<le> line_no la + lines_left code (current_pos la)"
proof -
  let ?P = "\<lambda>l::LexicalAnalyzer. 0 \<le> current_pos l \<and>
      line_no l + lines_left code (current_pos l) \<le> line_no la + lines_left code (current_pos la)"
  have "?P (tokenize_loop code la)"
  proof (rule tokenize_loop_invariant [where P = ?P])
    show "?P la" using assms by simp
  next
    fix l :: LexicalAnalyzer
    assume p: "?P l" and lt: "current_pos l < int (length code)"
    have "0 \<le> current_pos (tokenize_step code l)"
      using p tokenize_step_pos [OF lt] by simp
    moreover have "line_no (tokenize_step code l) +
        lines_left code (current_pos (tokenize_step code l))
        \<le> line_no l + lines_left code (current_pos l)"
      using p lt by (intro tokenize_step_lines) simp_all
    ultimately show "?P (tokenize_step code l)" using p by simp
  qed
  moreover have "0 \<le> lines_left code (current_pos (tokenize_loop code la))"
    by (simp add: lines_left_def)
  ultimately show ?thesis by linarith
qed

lemma tokenize_line_no_upper:
  "line_no (tokenize la code) \<le> line_no la + int (count_list code (CHR 0x0A))"
  unfolding tokenize_def
  using tokenize_loop_lines [of "la\<lparr>tokens := [], current_pos := 0\<rparr>" code]
  by (simp add: lines_left_def)

section \<open>The claims\<close>

subsection \<open>C1: the scan terminates; where the cursor stops\<close>

text \<open>
  C1. For every input string shorter than \<open>2^31 - 1\<close> characters the scan terminates, and
  when it finishes the cursor \<open>current_pos\<close> is exactly the length of the input, except that
  it is the length plus one exactly when the reader of the last iteration ran into the end
  of the input (a string or character literal that is never closed, a \<open>//\<close> comment with no
  newline after it, or \<open>/*\<close> as the last two characters); in particular the cursor ends at
  the length for every input without a quote and without \<open>/\<close>. Termination is the
  termination proof of \<open>tokenize_loop\<close>: every iteration moves the cursor forward
  (\<open>tokenize_step_pos\<close>), so \<open>tokenize\<close> is a total function.
\<close>

theorem tokenize_cursor_end:
  assumes "int (length code) < 2147483647"
  shows "(current_pos (tokenize la0 code) = int (length code) \<or>
          current_pos (tokenize la0 code) = int (length code) + 1) \<and>
         (current_pos (tokenize la0 code) = int (length code) + 1 \<longleftrightarrow>
            (\<exists>la. scan_reaches code la0 la \<and> current_pos la < int (length code) \<and>
                  reader_hits_end code (current_pos la))) \<and>
         (CHR 0x22 \<notin> set code \<and> CHR 0x27 \<notin> set code \<and> CHR ''/'' \<notin> set code \<longrightarrow>
            current_pos (tokenize la0 code) = int (length code))"
proof -
  let ?n = "int (length code)"
  let ?r = "tokenize la0 code"
  have bounds: "?n \<le> current_pos ?r \<and> current_pos ?r \<le> ?n + 1"
    unfolding tokenize_def by (rule tokenize_loop_pos) simp
  then have a: "current_pos ?r = ?n \<or> current_pos ?r = ?n + 1"
    by linarith
  have fwd: "\<exists>la. scan_reaches code la0 la \<and> current_pos la < ?n \<and>
      reader_hits_end code (current_pos la)" if e: "current_pos ?r = ?n + 1"
    using scan_reaches_result [of code la0]
  proof (cases rule: scan_reaches.cases)
    case start
    then have "current_pos ?r = 0" by (metis LexicalAnalyzer.select_convs(4)
          LexicalAnalyzer.surjective LexicalAnalyzer.update_convs(4))
    then show ?thesis using e by simp
  next
    case (step la)
    have "reader_hits_end code (current_pos la)"
      using tokenize_step_end [OF scan_reaches_pos [OF step(2)] step(3)] e step(1) by simp
    then show ?thesis using step by blast
  qed
  have bwd: "current_pos ?r = ?n + 1"
    if r: "scan_reaches code la0 la" and lt: "current_pos la < ?n"
      and h: "reader_hits_end code (current_pos la)" for la
  proof -
    have s: "current_pos (tokenize_step code la) = ?n + 1"
      using tokenize_step_end [OF scan_reaches_pos [OF r] lt] h by simp
    have "?r = tokenize_loop code (tokenize_step code la)"
      using scan_reaches_final [OF r] tokenize_loop_unfold [OF lt] by simp
    also have "\<dots> = tokenize_step code la"
      by (rule tokenize_loop_done) (simp add: s)
    finally show ?thesis using s by simp
  qed
  have b: "current_pos ?r = ?n + 1 \<longleftrightarrow>
      (\<exists>la. scan_reaches code la0 la \<and> current_pos la < ?n \<and>
            reader_hits_end code (current_pos la))"
    using fwd bwd by blast
  have c: "current_pos ?r = ?n"
    if "CHR 0x22 \<notin> set code \<and> CHR 0x27 \<notin> set code \<and> CHR ''/'' \<notin> set code"
    using a b that reader_hits_end_char [of code] by blast
  show ?thesis
    using a b c by blast
qed

theorem tokenize_cursor_end_witness:
  "current_pos (tokenize init_lexical_analyzer ''x y'') = 3 \<and>
   current_pos (tokenize init_lexical_analyzer ''/*'') = 3"
proof -
  let ?la = "init_lexical_analyzer\<lparr>tokens := [], current_pos := 0\<rparr>"
  have n1: "int (length ''x y'') < 2147483647" by simp
  have q1: "CHR 0x22 \<notin> set ''x y'' \<and> CHR 0x27 \<notin> set ''x y'' \<and> CHR ''/'' \<notin> set ''x y''"
    by simp
  note t1 = tokenize_cursor_end [OF n1, of init_lexical_analyzer]
  have a: "current_pos (tokenize init_lexical_analyzer ''x y'') = int (length ''x y'')"
    by (rule conjunct2 [OF conjunct2 [OF t1], rule_format, OF q1])
  have n2: "int (length ''/*'') < 2147483647" by simp
  have r: "scan_reaches ''/*'' init_lexical_analyzer ?la"
    by (rule scan_reaches.start)
  have l: "current_pos ?la < int (length ''/*'')" by simp
  have h: "reader_hits_end ''/*'' (current_pos ?la)"
    by (simp add: reader_hits_end_def char_at_def)
  note t2 = tokenize_cursor_end [OF n2, of init_lexical_analyzer]
  have b: "current_pos (tokenize init_lexical_analyzer ''/*'') = int (length ''/*'') + 1"
    unfolding conjunct1 [OF conjunct2 [OF t2]] using r l h by (intro exI [of _ ?la] conjI)
  show ?thesis
    using a b by simp
qed

text \<open>
  C1 as stated fails: on the four characters \<open>"abc\<close> (a string literal that is never
  closed) \<open>read_string\<close> leaves the cursor at 4, the length, and the loop steps to 5.
\<close>

theorem tokenize_cursor_past_end:
  "current_pos (tokenize init_lexical_analyzer [CHR 0x22, CHR ''a'', CHR ''b'', CHR ''c''])
     \<noteq> int (length [CHR 0x22, CHR ''a'', CHR ''b'', CHR ''c''])"
  by code_simp

subsection \<open>C10: the newline that ends a line comment is not counted\<close>

text \<open>
  C10. When the cursor is at a \<open>//\<close> comment that a newline ends, \<open>skip_comment\<close> stops on
  that newline, the driving loop steps past it in the comment branch, and the line counter
  is unchanged by the iteration. So after a scan the line counter can be strictly less than
  1 plus the number of newlines of the input, as on the two lines \<open>// c\<close> and \<open>int y;\<close>.
\<close>

theorem line_comment_newline_uncounted:
  assumes "code = pre @ ''//'' @ body @ CHR 0x0A # post" "CHR 0x0A \<notin> set body"
    "current_pos la = int (length pre)"
  shows "current_pos (skip_comment la code) = int (length pre + 2 + length body) \<and>
         char_at code (current_pos (skip_comment la code)) = CHR 0x0A \<and>
         current_pos (tokenize_step code la) = int (length pre + 2 + length body) + 1 \<and>
         line_no (tokenize_step code la) = line_no la \<and>
         line_no (tokenize init_lexical_analyzer ''// c\<newline>int y;'')
           < 1 + int (count_list ''// c\<newline>int y;'' (CHR 0x0A))"
proof -
  have c0: "char_at code (current_pos la) = CHR ''/''"
    using assms(1,3) char_at_append [of pre "CHR ''/''"] by simp
  have c1: "char_at code (current_pos la + 1) = CHR ''/''"
    using assms(1,3) char_at_append2 [of pre "CHR ''/''" "CHR ''/''"] by simp
  have len: "current_pos la + 1 < int (length code)"
    using assms(1,3) by simp
  have "takeWhile (\<lambda>c. c \<noteq> CHR 0x0A) (drop (nat (current_pos la)) code) = ''//'' @ body"
    using assms by (auto simp: takeWhile_tail)
  then have lc: "line_comment_loop code (current_pos la) = int (length pre + 2 + length body)"
    using assms(3) by (simp add: line_comment_loop_run)
  have sk: "skip_comment la code = la\<lparr>current_pos := int (length pre + 2 + length body)\<rparr>"
    using c0 c1 len lc by (simp add: skip_comment_def)
  have nl: "char_at code (int (length pre + 2 + length body)) = CHR 0x0A"
    using char_at_append [of "pre @ ''//'' @ body" "CHR 0x0A" post] assms(1) by simp
  have ex: "line_no (tokenize init_lexical_analyzer ''// c\<newline>int y;'') = 1"
    by code_simp
  show ?thesis
    using sk nl ex by (simp add: tokenize_step_comment [OF c0 len disjI1 [OF c1]])
qed

theorem line_comment_newline_uncounted_witness:
  "''// c\<newline>int y;'' = [] @ ''//'' @ '' c'' @ CHR 0x0A # ''int y;'' \<and>
   CHR 0x0A \<notin> set '' c'' \<and>
   current_pos (init_lexical_analyzer\<lparr>tokens := [], current_pos := 0\<rparr>) = int (length ([] :: string)) \<and>
   current_pos (tokenize_step ''// c\<newline>int y;''
     (init_lexical_analyzer\<lparr>tokens := [], current_pos := 0\<rparr>)) = 5 \<and>
   line_no (tokenize_step ''// c\<newline>int y;''
     (init_lexical_analyzer\<lparr>tokens := [], current_pos := 0\<rparr>)) = 1"
proof -
  have h1: "''// c\<newline>int y;'' = [] @ ''//'' @ '' c'' @ CHR 0x0A # ''int y;''" by simp
  have h2: "CHR 0x0A \<notin> set '' c''" by simp
  have h3: "current_pos (init_lexical_analyzer\<lparr>tokens := [], current_pos := 0\<rparr>) =
      int (length ([] :: string))"
    by simp
  show ?thesis
    using h1 h2 h3 line_comment_newline_uncounted [OF h1 h2 h3]
    by (simp add: init_lexical_analyzer_def)
qed

subsection \<open>C5: no operator token of three characters\<close>

text \<open>
  C5. For every input, no emitted Operator token has a text of length 3 (an Operator token
  has one or two characters); the entries \<open>>>=\<close> and \<open><<=\<close> of the operator table are
  never the text of a token; and since \<open>>>\<close> is not in the table either, the input \<open>>>\<close>
  yields the two one-character Operator tokens \<open>>\<close> and \<open>>\<close>.
\<close>

theorem operator_tokens_never_three:
  "(\<forall>t \<in> set (tokens (tokenize la code)).
      (tok_type t = ''Operator'' \<longrightarrow> length (tok_value t) \<noteq> 3) \<and>
      tok_value t \<noteq> ''>>='' \<and> tok_value t \<noteq> ''<<='') \<and>
   tokens (tokenize init_lexical_analyzer ''>>'') =
     [\<lparr>tok_type = ''Operator'', tok_value = ''>''\<rparr>, \<lparr>tok_type = ''Operator'', tok_value = ''>''\<rparr>]"
proof -
  have "\<forall>t \<in> set (tokens (tokenize la code)). token_text_ok t"
    unfolding tokenize_def by (rule tokenize_loop_tokens_ok) simp
  moreover have "tokens (tokenize init_lexical_analyzer ''>>'') =
     [\<lparr>tok_type = ''Operator'', tok_value = ''>''\<rparr>, \<lparr>tok_type = ''Operator'', tok_value = ''>''\<rparr>]"
    by code_simp
  ultimately show ?thesis
    by (auto simp: token_text_ok_def)
qed

theorem operator_tokens_never_three_witness:
  "\<lparr>tok_type = ''Operator'', tok_value = ''>=''\<rparr>
      \<in> set (tokens (tokenize init_lexical_analyzer ''a >>= b'')) \<and>
   length ''>='' \<noteq> 3 \<and> ''>='' \<noteq> ''>>='' \<and> ''>='' \<noteq> ''<<=''"
proof -
  have m: "\<lparr>tok_type = ''Operator'', tok_value = ''>=''\<rparr>
      \<in> set (tokens (tokenize init_lexical_analyzer ''a >>= b''))"
    by code_simp
  show ?thesis
    using m operator_tokens_never_three [of init_lexical_analyzer "''a >>= b''"]
    by auto
qed

subsection \<open>C9: a second scan accumulates\<close>

text \<open>
  C9. \<open>tokenize\<close> resets only the token sequence and the cursor: whatever they held before
  has no influence on the result, while the symbol table and the error list of the
  analyzer are extended (the old contents stay as a prefix) and the line counter goes on
  from its old value: as long as the old value plus the number of newlines of the input
  fits a C \<open>int\<close>, the counter ends between its old value and that sum. Scanning \<open>y 2b\<close>
  after \<open>x 1a\<close>, each followed by a newline, leaves the symbols \<open>x, y\<close>, the errors
  \<open>1a, 2b\<close> and line 3, with the tokens of the second input only.
\<close>

theorem tokenize_again_accumulates:
  "tokenize (la\<lparr>tokens := ts, current_pos := p\<rparr>) code = tokenize la code \<and>
   prefix (symbol_table la) (symbol_table (tokenize la code)) \<and>
   prefix (lexical_errors la) (lexical_errors (tokenize la code)) \<and>
   (line_no la + int (count_list code (CHR 0x0A)) \<le> 2147483647 \<longrightarrow>
      line_no la \<le> line_no (tokenize la code) \<and>
      line_no (tokenize la code) \<le> line_no la + int (count_list code (CHR 0x0A))) \<and>
   symbol_table (tokenize (tokenize init_lexical_analyzer ''x 1a\<newline>'') ''y 2b\<newline>'') = [''x'', ''y''] \<and>
   lexical_errors (tokenize (tokenize init_lexical_analyzer ''x 1a\<newline>'') ''y 2b\<newline>'') = [''1a'', ''2b''] \<and>
   line_no (tokenize (tokenize init_lexical_analyzer ''x 1a\<newline>'') ''y 2b\<newline>'') = 3 \<and>
   tokens (tokenize (tokenize init_lexical_analyzer ''x 1a\<newline>'') ''y 2b\<newline>'') =
     [\<lparr>tok_type = ''Identifier'', tok_value = ''y''\<rparr>] \<and>
   current_pos (tokenize (tokenize init_lexical_analyzer ''x 1a\<newline>'') ''y 2b\<newline>'') = 5"
proof -
  let ?la0 = "la\<lparr>tokens := [], current_pos := 0\<rparr>"
  have a: "tokenize (la\<lparr>tokens := ts, current_pos := p\<rparr>) code = tokenize la code"
    by (simp add: tokenize_def)
  have b: "prefix (symbol_table la) (symbol_table (tokenize la code))"
    unfolding tokenize_def using tokenize_loop_symbols_prefix [of ?la0 code] by simp
  have c: "prefix (lexical_errors la) (lexical_errors (tokenize la code))"
    unfolding tokenize_def using tokenize_loop_errors_prefix [of ?la0 code] by simp
  have d: "line_no la \<le> line_no (tokenize la code)"
    unfolding tokenize_def using tokenize_loop_line_no [of ?la0 code] by simp
  have u: "line_no (tokenize la code) \<le> line_no la + int (count_list code (CHR 0x0A))"
    by (rule tokenize_line_no_upper)
  have e: "tokenize (tokenize init_lexical_analyzer ''x 1a\<newline>'') ''y 2b\<newline>'' =
    \<lparr>symbol_table = [''x'', ''y''], lexical_errors = [''1a'', ''2b''],
     tokens = [\<lparr>tok_type = ''Identifier'', tok_value = ''y''\<rparr>], current_pos = 5, line_no = 3\<rparr>"
    by code_simp
  show ?thesis
    unfolding e using a b c d u by simp
qed

theorem tokenize_again_accumulates_witness:
  "line_no (tokenize init_lexical_analyzer ''a\<newline>b'') \<le> 2 \<and>
   1 \<le> line_no (tokenize init_lexical_analyzer ''a\<newline>b'')"
proof -
  have h: "line_no init_lexical_analyzer + int (count_list ''a\<newline>b'' (CHR 0x0A)) \<le> 2147483647"
    by (simp add: init_lexical_analyzer_def)
  note t = tokenize_again_accumulates
    [where la = init_lexical_analyzer and ts = "[]" and p = 0 and code = "''a\<newline>b''"]
  have "line_no init_lexical_analyzer \<le> line_no (tokenize init_lexical_analyzer ''a\<newline>b'') \<and>
      line_no (tokenize init_lexical_analyzer ''a\<newline>b'')
        \<le> line_no init_lexical_analyzer + int (count_list ''a\<newline>b'' (CHR 0x0A))"
    by (rule conjunct1 [OF conjunct2 [OF conjunct2 [OF conjunct2 [OF t]]], rule_format, OF h])
  then show ?thesis
    by (simp add: init_lexical_analyzer_def)
qed

subsection \<open>C4: operators by maximal munch with one character of lookahead\<close>

text \<open>
  C4. When the cursor is at an operator character (that does not open a comment, which the
  driving loop tests first): if the cursor is not at the last character and the
  two-character window starting at it is an entry of the operator table, the iteration
  emits a single Operator token with these two characters and moves the cursor one extra
  position (two in all); otherwise it emits an Operator token with the one character and
  moves the cursor by one. In particular \<open>a == b\<close> yields one Operator token \<open>==\<close>
  between the two identifiers.
\<close>

theorem operator_maximal_munch:
  assumes "char_at code (current_pos la) \<in> set operator_chars"
    and "\<not> (char_at code (current_pos la) = CHR ''/'' \<and> current_pos la + 1 < int (length code) \<and>
        (char_at code (current_pos la + 1) = CHR ''/'' \<or>
         char_at code (current_pos la + 1) = CHR ''*''))"
  shows "(if current_pos la + 1 < int (length code) \<and>
           [char_at code (current_pos la), char_at code (current_pos la + 1)] \<in> set operators_arr
        then tokens (tokenize_step code la) =
               tokens la @ [\<lparr>tok_type = ''Operator'',
                 tok_value = [char_at code (current_pos la), char_at code (current_pos la + 1)]\<rparr>] \<and>
             current_pos (tokenize_step code la) = current_pos la + 2
        else tokens (tokenize_step code la) =
               tokens la @ [\<lparr>tok_type = ''Operator'', tok_value = [char_at code (current_pos la)]\<rparr>] \<and>
             current_pos (tokenize_step code la) = current_pos la + 1) \<and>
     tokens (tokenize init_lexical_analyzer ''a == b'') =
       [\<lparr>tok_type = ''Identifier'', tok_value = ''a''\<rparr>,
        \<lparr>tok_type = ''Operator'', tok_value = ''==''\<rparr>,
        \<lparr>tok_type = ''Identifier'', tok_value = ''b''\<rparr>]"
proof -
  have op: "strchr_found operator_chars (char_at code (current_pos la))"
    using assms(1) by (simp add: strchr_found_def)
  have ex: "tokens (tokenize init_lexical_analyzer ''a == b'') =
       [\<lparr>tok_type = ''Identifier'', tok_value = ''a''\<rparr>,
        \<lparr>tok_type = ''Operator'', tok_value = ''==''\<rparr>,
        \<lparr>tok_type = ''Identifier'', tok_value = ''b''\<rparr>]"
    by code_simp
  show ?thesis
    unfolding tokenize_step_operator [OF op assms(2)]
    using ex by (simp add: read_operator_def Let_def push_token_def is_in_operators_def)
qed

theorem operator_maximal_munch_witness:
  "char_at ''a == b'' (current_pos (init_lexical_analyzer\<lparr>current_pos := 2\<rparr>)) \<in> set operator_chars \<and>
   tokens (tokenize_step ''a == b'' (init_lexical_analyzer\<lparr>current_pos := 2\<rparr>)) =
     [\<lparr>tok_type = ''Operator'', tok_value = ''==''\<rparr>] \<and>
   current_pos (tokenize_step ''a == b'' (init_lexical_analyzer\<lparr>current_pos := 2\<rparr>)) = 4 \<and>
   char_at ''a < b'' (current_pos (init_lexical_analyzer\<lparr>current_pos := 2\<rparr>)) \<in> set operator_chars \<and>
   tokens (tokenize_step ''a < b'' (init_lexical_analyzer\<lparr>current_pos := 2\<rparr>)) =
     [\<lparr>tok_type = ''Operator'', tok_value = ''<''\<rparr>] \<and>
   current_pos (tokenize_step ''a < b'' (init_lexical_analyzer\<lparr>current_pos := 2\<rparr>)) = 3"
proof -
  let ?la = "init_lexical_analyzer\<lparr>current_pos := 2\<rparr>"
  have c: "char_at ''a == b'' 2 = CHR ''=''" "char_at ''a == b'' 3 = CHR ''=''"
    "char_at ''a < b'' 2 = CHR ''<''" "char_at ''a < b'' 3 = CHR '' ''"
    by (simp_all add: char_at_def)
  have h1: "char_at ''a == b'' (current_pos ?la) \<in> set operator_chars"
    by (simp add: c operator_chars_def)
  have h2: "\<not> (char_at ''a == b'' (current_pos ?la) = CHR ''/'' \<and>
        current_pos ?la + 1 < int (length ''a == b'') \<and>
        (char_at ''a == b'' (current_pos ?la + 1) = CHR ''/'' \<or>
         char_at ''a == b'' (current_pos ?la + 1) = CHR ''*''))"
    by (simp add: c)
  have g1: "char_at ''a < b'' (current_pos ?la) \<in> set operator_chars"
    by (simp add: c operator_chars_def)
  have g2: "\<not> (char_at ''a < b'' (current_pos ?la) = CHR ''/'' \<and>
        current_pos ?la + 1 < int (length ''a < b'') \<and>
        (char_at ''a < b'' (current_pos ?la + 1) = CHR ''/'' \<or>
         char_at ''a < b'' (current_pos ?la + 1) = CHR ''*''))"
    by (simp add: c)
  show ?thesis
    using h1 g1 operator_maximal_munch [OF h1 h2] operator_maximal_munch [OF g1 g2]
    by (simp add: c operators_arr_def init_lexical_analyzer_def)
qed

subsection \<open>C2: numeric literals\<close>

text \<open>
  C2. For every nonempty literal of at most 255 characters that is either a run of decimal
  digits, or begins with a digit, contains no white space, operator character or
  punctuation character (so no \<open>.\<close>, \<open>+\<close> or \<open>-\<close>) and is accepted whole by \<open>strtod\<close>
  (as \<open>1e5\<close> or \<open>0x1F\<close> are): scanned as the whole input, the scan yields exactly one token,
  of kind Constant, whose text equals the literal.
\<close>

theorem numeric_literal_constant:
  assumes "code \<noteq> []" "length code \<le> 255"
    and "(\<forall>c \<in> set code. is_digit c) \<or>
         (is_digit (hd code) \<and> (\<forall>c \<in> set code. \<not> is_delimiter c) \<and> strtod_endptr code = [])"
  shows "tokens (tokenize la code) = [\<lparr>tok_type = ''Constant'', tok_value = code\<rparr>]"
proof -
  let ?la0 = "la\<lparr>tokens := [], current_pos := 0\<rparr>"
  have dg: "is_digit (hd code)"
    using assms(1,3) by (cases code) auto
  have nd: "\<forall>c \<in> set code. \<not> is_delimiter c"
    using assms(3) digit_class(3) by blast
  have sd: "strtod_endptr code = []"
    using assms(1,3) strtod_endptr_digits by blast
  have nk: "\<not> is_in_keywords code"
    using keyword_starts_with_letter [of code] digit_class(1) [OF dg] by blast
  have split: "code = [] @ code @ []" by simp
  have ch: "char_at code 0 = hd code"
    using hd_run_at [OF split assms(1), of ?la0] by simp
  have lx: "is_letter (char_at code (current_pos ?la0)) \<or>
      char_at code (current_pos ?la0) = CHR ''_'' \<or> is_digit (char_at code (current_pos ?la0))"
    using ch dg by simp
  have rl: "read_lexeme ?la0 code =
      (\<lparr>tok_type = ''Constant'', tok_value = code\<rparr>, ?la0\<lparr>current_pos := int (length code) - 1\<rparr>)"
    using read_lexeme_at [OF split nd, of ?la0] nk dg sd assms(1,2)
      digit_class(1,2) [OF dg]
    by (simp add: Let_def)
  have st: "tokenize_step code ?la0 =
      ?la0\<lparr>tokens := [\<lparr>tok_type = ''Constant'', tok_value = code\<rparr>],
           current_pos := int (length code)\<rparr>"
    unfolding tokenize_step_lexeme [OF lx]
    by (simp add: rl Let_def push_token_def)
  have "tokenize la code = tokenize_loop code (tokenize_step code ?la0)"
    unfolding tokenize_def using assms(1) by (intro tokenize_loop_unfold) simp
  also have "\<dots> = ?la0\<lparr>tokens := [\<lparr>tok_type = ''Constant'', tok_value = code\<rparr>],
           current_pos := int (length code)\<rparr>"
    unfolding st by (rule tokenize_loop_done) simp
  finally show ?thesis by simp
qed

theorem numeric_literal_constant_witness:
  "is_digit (hd ''1e5'') \<and> strtod_endptr ''1e5'' = [] \<and>
   tokens (tokenize init_lexical_analyzer ''1024'') = [\<lparr>tok_type = ''Constant'', tok_value = ''1024''\<rparr>] \<and>
   tokens (tokenize init_lexical_analyzer ''1e5'') = [\<lparr>tok_type = ''Constant'', tok_value = ''1e5''\<rparr>]"
proof -
  have a: "\<forall>c \<in> set ''1024''. is_digit c"
    by (simp add: is_digit_def less_eq_char_def)
  have b: "is_digit (hd ''1e5'') \<and> (\<forall>c \<in> set ''1e5''. \<not> is_delimiter c) \<and> strtod_endptr ''1e5'' = []"
    by code_simp
  show ?thesis
    using a b numeric_literal_constant [of "''1024''" init_lexical_analyzer, OF _ _ disjI1 [OF a]]
      numeric_literal_constant [of "''1e5''" init_lexical_analyzer, OF _ _ disjI2 [OF b]]
    by simp
qed

text \<open>
  C2 as stated fails for a floating-point literal with a fraction: \<open>.\<close> is a punctuation
  character, so it ends the lexeme, and \<open>3.14\<close> yields three tokens.
\<close>

theorem float_literal_split:
  "tokens (tokenize init_lexical_analyzer ''3.14'') =
     [\<lparr>tok_type = ''Constant'', tok_value = ''3''\<rparr>,
      \<lparr>tok_type = ''Punctuation'', tok_value = ''.''\<rparr>,
      \<lparr>tok_type = ''Constant'', tok_value = ''14''\<rparr>]"
  by code_simp

subsection \<open>C7: invalid lexemes\<close>

text \<open>
  C7. A malformed alphanumeric run of at most 255 characters (the text from a letter, digit
  or underscore up to the next white space, operator or punctuation character, that is not
  a keyword, not a well-formed identifier and not a number that \<open>strtod\<close> accepts whole,
  such as \<open>1a2b\<close>) produces no token and appends exactly one entry, equal to the text of the
  run, to the error list; the symbol table is unchanged, the cursor moves to the end of the
  run and the scan goes on from there.
\<close>

theorem invalid_lexeme_recorded:
  assumes "code = pre @ run @ post" "current_pos la = int (length pre)"
    and "run \<noteq> []" "is_letter (hd run) \<or> hd run = CHR ''_'' \<or> is_digit (hd run)"
    and "\<forall>c \<in> set run. \<not> is_delimiter c" "post = [] \<or> is_delimiter (hd post)"
    and "length run \<le> 255"
    and "\<not> is_in_keywords run"
    and "\<not> ((is_letter (hd run) \<or> hd run = CHR ''_'') \<and> valid_rest run)"
    and "\<not> (is_digit (hd run) \<and> strtod_endptr run = [])"
  shows "tokens (tokenize_step code la) = tokens la \<and>
         lexical_errors (tokenize_step code la) = lexical_errors la @ [run] \<and>
         symbol_table (tokenize_step code la) = symbol_table la \<and>
         current_pos (tokenize_step code la) = int (length pre + length run) \<and>
         tokenize_loop code la = tokenize_loop code (tokenize_step code la) \<and>
         tokens (tokenize init_lexical_analyzer ''1a2b'') = [] \<and>
         lexical_errors (tokenize init_lexical_analyzer ''1a2b'') = [''1a2b''] \<and>
         tokens (tokenize init_lexical_analyzer ''1a2b x'') =
           [\<lparr>tok_type = ''Identifier'', tok_value = ''x''\<rparr>] \<and>
         lexical_errors (tokenize init_lexical_analyzer ''1a2b x'') = [''1a2b'']"
proof -
  have ex: "tokenize init_lexical_analyzer ''1a2b'' =
      \<lparr>symbol_table = [], lexical_errors = [''1a2b''], tokens = [], current_pos = 4,
       line_no = 1\<rparr>"
    "tokenize init_lexical_analyzer ''1a2b x'' =
      \<lparr>symbol_table = [''x''], lexical_errors = [''1a2b''],
       tokens = [\<lparr>tok_type = ''Identifier'', tok_value = ''x''\<rparr>], current_pos = 6,
       line_no = 1\<rparr>"
    by code_simp+
  have lx: "is_letter (char_at code (current_pos la)) \<or>
      char_at code (current_pos la) = CHR ''_'' \<or> is_digit (char_at code (current_pos la))"
    using hd_run_at [OF assms(1,3,2)] assms(4) by simp
  have rl: "read_lexeme la code =
      (\<lparr>tok_type = [], tok_value = []\<rparr>,
       push_lexical_error (la\<lparr>current_pos := int (length pre + length run) - 1\<rparr>) run)"
    using read_lexeme_at [OF assms(1,5,6,2)] assms(3,7,8,9,10)
    by (simp add: Let_def)
  have "current_pos la < int (length code)"
    using assms(1,2,3) by (cases run) simp_all
  then have "tokenize_loop code la = tokenize_loop code (tokenize_step code la)"
    by (rule tokenize_loop_unfold)
  then show ?thesis
    unfolding tokenize_step_lexeme [OF lx] ex
    by (simp add: rl Let_def push_lexical_error_def)
qed

theorem invalid_lexeme_recorded_witness:
  "''x 1a2b;'' = ''x '' @ ''1a2b'' @ '';'' \<and>
   \<not> is_in_keywords ''1a2b'' \<and> \<not> is_letter (hd ''1a2b'') \<and> hd ''1a2b'' \<noteq> CHR ''_'' \<and>
   strtod_endptr ''1a2b'' \<noteq> [] \<and>
   tokens (tokenize_step ''x 1a2b;'' (init_lexical_analyzer\<lparr>current_pos := 2\<rparr>)) = [] \<and>
   lexical_errors (tokenize_step ''x 1a2b;'' (init_lexical_analyzer\<lparr>current_pos := 2\<rparr>)) = [''1a2b''] \<and>
   current_pos (tokenize_step ''x 1a2b;'' (init_lexical_analyzer\<lparr>current_pos := 2\<rparr>)) = 6"
proof -
  let ?la = "init_lexical_analyzer\<lparr>current_pos := 2\<rparr>"
  have h1: "''x 1a2b;'' = ''x '' @ ''1a2b'' @ '';''" by simp
  have h2: "current_pos ?la = int (length ''x '')" by simp
  have h3: "''1a2b'' \<noteq> []" by simp
  have h4: "is_letter (hd ''1a2b'') \<or> hd ''1a2b'' = CHR ''_'' \<or> is_digit (hd ''1a2b'')"
    by code_simp
  have h5: "\<forall>c \<in> set ''1a2b''. \<not> is_delimiter c" by code_simp
  have h6: "'';'' = [] \<or> is_delimiter (hd '';'')" by code_simp
  have h7: "length ''1a2b'' \<le> 255" by simp
  have h8: "\<not> is_in_keywords ''1a2b''" by code_simp
  have h9: "\<not> ((is_letter (hd ''1a2b'') \<or> hd ''1a2b'' = CHR ''_'') \<and> valid_rest ''1a2b'')"
    by code_simp
  have h10: "\<not> (is_digit (hd ''1a2b'') \<and> strtod_endptr ''1a2b'' = [])" by code_simp
  have h11: "\<not> is_letter (hd ''1a2b'')" "hd ''1a2b'' \<noteq> CHR ''_''" "strtod_endptr ''1a2b'' \<noteq> []"
    by code_simp+
  show ?thesis
    using h8 h11 invalid_lexeme_recorded [OF h1 h2 h3 h4 h5 h6 h7 h8 h9 h10]
    by (simp add: init_lexical_analyzer_def)
qed

text \<open>
  C7 as stated fails for a longer run, since only the first 255 characters are kept and
  classified: 255 letters \<open>a\<close> followed by \<open>$\<close> are no identifier, yet the scan emits an
  Identifier token for the 255 letters and records no error.
\<close>

theorem long_invalid_run_yields_identifier:
  "tokens (tokenize init_lexical_analyzer (replicate 255 (CHR ''a'') @ ''$'')) =
     [\<lparr>tok_type = ''Identifier'', tok_value = replicate 255 (CHR ''a'')\<rparr>] \<and>
   lexical_errors (tokenize init_lexical_analyzer (replicate 255 (CHR ''a'') @ ''$'')) = []"
  by (simp add: long_run_tokenize [of _ "''$''"])

subsection \<open>C8: unterminated string and character literals\<close>

text \<open>
  C8. When the cursor is at an opening quote (double or single) and no matching quote
  follows before the end of the input, the scan ends with this literal: a token of kind
  String is emitted whose text is the literal from the opening quote to the end of the
  input, cut to its first 255 characters; no entry is added to the error list (nor to the
  symbol table), and the cursor ends one past the length of the input.
\<close>

theorem unterminated_literal_captured:
  assumes "code = pre @ q # rest" "q = CHR 0x22 \<or> q = CHR 0x27" "q \<notin> set rest"
    "current_pos la = int (length pre)"
  shows "tokens (tokenize_loop code la) =
           tokens la @ [\<lparr>tok_type = ''String'', tok_value = take 255 (q # rest)\<rparr>] \<and>
         lexical_errors (tokenize_loop code la) = lexical_errors la \<and>
         symbol_table (tokenize_loop code la) = symbol_table la \<and>
         current_pos (tokenize_loop code la) = int (length code) + 1"
proof -
  have "current_pos la < int (length code)"
    using assms(1,4) by simp
  then have "tokenize_loop code la = tokenize_loop code (tokenize_step code la)"
    by (rule tokenize_loop_unfold)
  also have "\<dots> = tokenize_step code la"
    unfolding unterminated_quote_step [OF assms] by (rule tokenize_loop_done) simp
  finally show ?thesis
    by (simp add: unterminated_quote_step [OF assms])
qed

theorem unterminated_literal_captured_witness:
  "[CHR 0x22, CHR ''a'', CHR ''b''] = [] @ CHR 0x22 # ''ab'' \<and> CHR 0x22 \<notin> set ''ab'' \<and>
   tokens (tokenize init_lexical_analyzer [CHR 0x22, CHR ''a'', CHR ''b'']) =
     [\<lparr>tok_type = ''String'', tok_value = [CHR 0x22, CHR ''a'', CHR ''b'']\<rparr>] \<and>
   lexical_errors (tokenize init_lexical_analyzer [CHR 0x22, CHR ''a'', CHR ''b'']) = []"
proof -
  let ?la = "init_lexical_analyzer\<lparr>tokens := [], current_pos := 0\<rparr>"
  have h1: "[CHR 0x22, CHR ''a'', CHR ''b''] = [] @ CHR 0x22 # ''ab''" by simp
  have h2: "CHR 0x22 = CHR 0x22 \<or> CHR 0x22 = CHR 0x27" by simp
  have h3: "CHR 0x22 \<notin> set ''ab''" by simp
  have h4: "current_pos ?la = int (length ([] :: string))" by simp
  show ?thesis
    using h3 unterminated_literal_captured [OF h1 h2 h3 h4]
    by (simp add: tokenize_def init_lexical_analyzer_def)
qed

text \<open>
  C8 as stated fails for a long literal: of an opening quote followed by 255 letters the
  token keeps the quote and 254 letters, so the capture is not verbatim to the end of the
  input.
\<close>

theorem long_unterminated_literal_truncated:
  "tokens (tokenize init_lexical_analyzer (CHR 0x22 # replicate 255 (CHR ''a''))) =
     [\<lparr>tok_type = ''String'', tok_value = CHR 0x22 # replicate 254 (CHR ''a'')\<rparr>] \<and>
   CHR 0x22 # replicate 254 (CHR ''a'') \<noteq> CHR 0x22 # replicate 255 (CHR ''a'')"
proof -
  let ?la = "init_lexical_analyzer\<lparr>tokens := [], current_pos := 0\<rparr>"
  let ?code = "CHR 0x22 # replicate 255 (CHR ''a'')"
  have h1: "?code = [] @ CHR 0x22 # replicate 255 (CHR ''a'')" by simp
  have h3: "CHR 0x22 \<notin> set (replicate 255 (CHR ''a''))" by simp
  have h4: "current_pos ?la = int (length ([] :: string))" by simp
  have st: "tokenize_step ?code ?la =
      ?la\<lparr>tokens := tokens ?la @
          [\<lparr>tok_type = ''String'', tok_value = take 255 (CHR 0x22 # replicate 255 (CHR ''a''))\<rparr>],
        current_pos := int (length ?code) + 1\<rparr>"
    by (rule unterminated_quote_step [OF h1 _ h3 h4]) simp
  have "tokenize init_lexical_analyzer ?code = tokenize_loop ?code (tokenize_step ?code ?la)"
    unfolding tokenize_def by (rule tokenize_loop_unfold) simp
  also have "\<dots> = tokenize_step ?code ?la"
    unfolding st by (rule tokenize_loop_done) simp
  finally have "tokens (tokenize init_lexical_analyzer ?code) =
      [\<lparr>tok_type = ''String'', tok_value = take 255 (CHR 0x22 # replicate 255 (CHR ''a''))\<rparr>]"
    by (simp add: st)
  moreover have "take 255 (CHR 0x22 # replicate 255 (CHR ''a'')) = CHR 0x22 # replicate 254 (CHR ''a'')"
    by (simp add: take_Cons')
  ultimately show ?thesis
    by (simp add: replicate_eq_replicate)
qed

subsection \<open>C3: identifiers followed by an opening parenthesis\<close>




subsection \<open>C6: every identifier once in the symbol table\<close>

text \<open>
  C6. The symbol table never contains duplicate entries: a scan that starts from a table
  without duplicates ends with one. And for every identifier matching
  \<open>[A-Za-z_][A-Za-z0-9_]*\<close> of at most 255 characters that is not a keyword: if at some
  iteration of the scan the cursor is at an occurrence of it that ends at a delimiter or at
  the end of the input and is not followed, after optional white space, by \<open>(\<close>, then the
  identifier appears exactly once in the final symbol table, however often it occurs in the
  source.
\<close>

theorem identifier_once_in_symbol_table:
  assumes "distinct (symbol_table la0)"
  shows "distinct (symbol_table (tokenize la0 code)) \<and>
    (\<forall>la pre ident post.
       scan_reaches code la0 la \<and> code = pre @ ident @ post \<and> current_pos la = int (length pre) \<and>
       ident \<noteq> [] \<and> (is_letter (hd ident) \<or> hd ident = CHR ''_'') \<and> valid_rest ident \<and>
       length ident \<le> 255 \<and> \<not> is_in_keywords ident \<and>
       (post = [] \<or> is_delimiter (hd post)) \<and>
       (\<forall>ws rest. (\<forall>c \<in> set ws. is_whitespace c) \<longrightarrow> post \<noteq> ws @ CHR ''('' # rest)
       \<longrightarrow> count_list (symbol_table (tokenize la0 code)) ident = 1)"
proof -
  have d: "distinct (symbol_table (tokenize la0 code))"
    unfolding tokenize_def using assms by (intro tokenize_loop_symbols_distinct) simp
  have "count_list (symbol_table (tokenize la0 code)) ident = 1"
    if r: "scan_reaches code la0 la" and c: "code = pre @ ident @ post"
      and p: "current_pos la = int (length pre)"
      and i: "ident \<noteq> []" "is_letter (hd ident) \<or> hd ident = CHR ''_''" "valid_rest ident"
        "length ident \<le> 255" "\<not> is_in_keywords ident"
      and e: "post = [] \<or> is_delimiter (hd post)"
      and n: "\<forall>ws rest. (\<forall>c \<in> set ws. is_whitespace c) \<longrightarrow> post \<noteq> ws @ CHR ''('' # rest"
    for la pre ident post
  proof -
    have lt: "current_pos la < int (length code)"
      using c p i(1) by (cases ident) simp_all
    have "tokenize la0 code = tokenize_loop code (tokenize_step code la)"
      using scan_reaches_final [OF r] tokenize_loop_unfold [OF lt] by simp
    moreover have "ident \<in> set (symbol_table (tokenize_step code la))"
      by (rule identifier_inserted [OF c p i e n])
    ultimately have "ident \<in> set (symbol_table (tokenize la0 code))"
      using tokenize_loop_symbols_prefix [of "tokenize_step code la" code]
      by (auto dest: set_mono_prefix)
    then show ?thesis
      using d by (simp add: distinct_count_list_one)
  qed
  then show ?thesis
    using d by blast
qed

theorem identifier_once_in_symbol_table_witness:
  "distinct (symbol_table init_lexical_analyzer) \<and>
   distinct (symbol_table (tokenize init_lexical_analyzer ''x = x + x;'')) \<and>
   count_list (symbol_table (tokenize init_lexical_analyzer ''x = x + x;'')) ''x'' = 1"
proof -
  let ?la = "init_lexical_analyzer\<lparr>tokens := [], current_pos := 0\<rparr>"
  have h0: "distinct (symbol_table init_lexical_analyzer)"
    by (simp add: init_lexical_analyzer_def)
  have r: "scan_reaches ''x = x + x;'' init_lexical_analyzer ?la"
    by (rule scan_reaches.start)
  have c: "''x = x + x;'' = [] @ ''x'' @ '' = x + x;''" by simp
  have p: "current_pos ?la = int (length ([] :: string))" by simp
  have i1: "''x'' \<noteq> []" by simp
  have i2: "is_letter (hd ''x'') \<or> hd ''x'' = CHR ''_''" by code_simp
  have i3: "valid_rest ''x''" by code_simp
  have i4: "length ''x'' \<le> 255" by simp
  have i5: "\<not> is_in_keywords ''x''" by code_simp
  have e: "'' = x + x;'' = [] \<or> is_delimiter (hd '' = x + x;'')" by code_simp
  have n: "\<forall>ws rest. (\<forall>c \<in> set ws. is_whitespace c) \<longrightarrow> '' = x + x;'' \<noteq> ws @ CHR ''('' # rest"
  proof (intro allI impI notI)
    fix ws rest
    assume w: "\<forall>c \<in> set ws. is_whitespace c" and eq: "'' = x + x;'' = ws @ CHR ''('' # rest"
    have "CHR ''='' \<in> set ws \<or> CHR ''('' = CHR ''=''"
    proof (cases ws)
      case Nil
      then show ?thesis using eq by simp
    next
      case (Cons a ws')
      show ?thesis
      proof (cases ws')
        case Nil
        then show ?thesis using eq Cons by simp
      next
        case (Cons b ws'')
        then show ?thesis using eq \<open>ws = a # ws'\<close> by simp
      qed
    qed
    moreover have "\<not> is_whitespace (CHR ''='')" by (simp add: is_whitespace_def)
    moreover have "CHR ''('' \<noteq> CHR ''=''" by simp
    ultimately show False using w by blast
  qed
  have all: "scan_reaches ''x = x + x;'' init_lexical_analyzer ?la \<and>
      ''x = x + x;'' = [] @ ''x'' @ '' = x + x;'' \<and> current_pos ?la = int (length ([] :: string)) \<and>
      ''x'' \<noteq> [] \<and> (is_letter (hd ''x'') \<or> hd ''x'' = CHR ''_'') \<and> valid_rest ''x'' \<and>
      length ''x'' \<le> 255 \<and> \<not> is_in_keywords ''x'' \<and>
      ('' = x + x;'' = [] \<or> is_delimiter (hd '' = x + x;'')) \<and>
      (\<forall>ws rest. (\<forall>c \<in> set ws. is_whitespace c) \<longrightarrow> '' = x + x;'' \<noteq> ws @ CHR ''('' # rest)"
    using r c p i1 i2 i3 i4 i5 e n by (intro conjI)
  note t = identifier_once_in_symbol_table [OF h0, of "''x = x + x;''"]
  have "count_list (symbol_table (tokenize init_lexical_analyzer ''x = x + x;'')) ''x'' = 1"
    by (rule conjunct2 [OF t, rule_format, of ?la "[]" "''x''" "'' = x + x;''", OF all])
  then show ?thesis
    using h0 conjunct1 [OF t] by (intro conjI)
qed

text \<open>
  C6 as stated fails for a longer identifier: of 256 letters \<open>a\<close> the lexeme buffer keeps
  255, so the symbol table holds the 255-letter prefix and the identifier itself does not
  appear in it.
\<close>

theorem long_identifier_truncated:
  "count_list (symbol_table (tokenize init_lexical_analyzer (replicate 256 (CHR ''a''))))
     (replicate 256 (CHR ''a'')) = 0"
proof -
  have "replicate (255 + 1) (CHR ''a'') = replicate 255 (CHR ''a'') @ replicate 1 (CHR ''a'')"
    by (rule replicate_add)
  then have "replicate 256 (CHR ''a'') = replicate 255 (CHR ''a'') @ ''a''"
    by simp
  then have "symbol_table (tokenize init_lexical_analyzer (replicate 256 (CHR ''a''))) =
      [replicate 255 (CHR ''a'')]"
    by (simp add: long_run_tokenize [of _ "''a''"])
  moreover have "replicate 255 (CHR ''a'') \<noteq> replicate 256 (CHR ''a'')"
    by (simp add: replicate_eq_replicate)
  ultimately show ?thesis by simp
qed

end
